theory Spec2Isabelle
  imports Main "HOL-Library.Word"
begin

unbundle bit_operations_syntax

section \<open>The array engine of fclib (\<^verbatim>\<open>arr.h\<close>)\<close>

text \<open>
  The engine is written for a 64-bit target: \<^verbatim>\<open>size_t\<close> is a 64-bit unsigned word whose
  arithmetic wraps modulo \<open>2 ^ 64\<close>, \<^verbatim>\<open>sizeof(size_t) = 8\<close> and
  \<^verbatim>\<open>sizeof(fclib_arr_t) = 8\<close> (the \<^verbatim>\<open>len\<close> field; the flexible member adds nothing).
\<close>

type_synonym size_t = "64 word"
type_synonym byte = "8 word"

subsection \<open>Outcomes of a call\<close>

text \<open>
  A call either returns or ends the process. \<open>Aborted\<close> is a call of \<^verbatim>\<open>abort()\<close>,
  \<open>AssertionFailed\<close> a failed \<^verbatim>\<open>assert\<close> (assertions are compiled in),
  \<open>NullPointer\<close> a null pointer handed to \<^verbatim>\<open>memcpy\<close>, \<open>OutOfBounds\<close> a read or
  write outside the object a pointer points into, and \<open>Overlap\<close> a \<^verbatim>\<open>memcpy\<close> between
  overlapping regions. The last three are undefined behaviour in C; the model stops there.
  A returned \<^verbatim>\<open>NULL\<close> is the value \<open>None\<close>.
\<close>

datatype crash = Aborted | AssertionFailed | NullPointer | OutOfBounds | Overlap

type_synonym 'a outcome = "crash + 'a"

subsection \<open>Memory\<close>

text \<open>
  \<open>rd xs i\<close> is the read \<^verbatim>\<open>xs[i]\<close> of a \<^verbatim>\<open>size_t\<close> array that holds \<open>length xs\<close> entries.
\<close>

definition rd :: "'a list \<Rightarrow> nat \<Rightarrow> 'a outcome" where
  "rd xs i = (if i < length xs then Inr (xs ! i) else Inl OutOfBounds)"

text \<open>
  \<open>memcpy dest d src s n\<close> is \<^verbatim>\<open>memcpy(dest + d, src + s, n)\<close> between two objects: it
  returns the new content of \<open>dest\<close>. \<open>memcpy_within mem d s n\<close> is
  \<^verbatim>\<open>memcpy(mem + d, mem + s, n)\<close> inside one object, where the two regions must not
  overlap.
\<close>

definition memcpy :: "byte list \<Rightarrow> nat \<Rightarrow> byte list \<Rightarrow> nat \<Rightarrow> nat \<Rightarrow> byte list outcome" where
  "memcpy dest d src s n =
     (if s + n \<le> length src \<and> d + n \<le> length dest
      then Inr (take d dest @ take n (drop s src) @ drop (d + n) dest)
      else Inl OutOfBounds)"

definition memcpy_within :: "byte list \<Rightarrow> nat \<Rightarrow> nat \<Rightarrow> nat \<Rightarrow> byte list outcome" where
  "memcpy_within mem d s n =
     (if s + n \<le> d \<or> d + n \<le> s then memcpy mem d mem s n else Inl Overlap)"

text \<open>
  The object representation of a \<^verbatim>\<open>size_t\<close> passed by value (\<^verbatim>\<open>&value\<close>): its eight
  bytes, least significant first.
\<close>

definition size_t_bytes :: "size_t \<Rightarrow> byte list" where
  "size_t_bytes w = map (\<lambda>k. ucast (drop_bit (8 * k) w)) [0..<8]"

fun bytes_size_t :: "byte list \<Rightarrow> size_t" where
  "bytes_size_t [] = 0"
| "bytes_size_t (b # bs) = ucast b OR push_bit 8 (bytes_size_t bs)"

subsection \<open>The array block\<close>

text \<open>
  \<^verbatim>\<open>typedef fclib_str_t fclib_arr_t\<close>: the field \<open>len\<close> holds the dimensionality, the first
  \<open>len\<close> words of \<^verbatim>\<open>value[]\<close> hold the length of every dimension (\<open>dim_lengths\<close>) and
  the rest of \<^verbatim>\<open>value[]\<close> is the element storage (\<open>data\<close>), as many bytes as the block was
  allocated with. A pointer into the element storage is its byte offset from
  \<^verbatim>\<open>data_start\<close>.
\<close>

record arr =
  len :: size_t
  dim_lengths :: "size_t list"
  data :: "byte list"

text \<open>
  The loop \<^verbatim>\<open>for (i = 0; i < dimensionality; i++) total *= lengths[i]\<close>, which every
  function of the engine starts with. Here and below a counter that only runs up to a
  \<^verbatim>\<open>size_t\<close> bound is a natural number; every product, sum and offset it enters is
  formed in \<^verbatim>\<open>size_t\<close>.
\<close>

function mul_lengths :: "size_t list \<Rightarrow> nat \<Rightarrow> nat \<Rightarrow> size_t \<Rightarrow> size_t outcome" where
  "mul_lengths lengths dimensionality i tot =
     (if i < dimensionality then
        (case rd lengths i of
           Inl e \<Rightarrow> Inl e
         | Inr l \<Rightarrow> mul_lengths lengths dimensionality (i + 1) (tot * l))
      else Inr tot)"
  by pat_completeness auto
termination
  by (relation "measure (\<lambda>(lengths, dimensionality, i, tot). dimensionality - i)") auto

declare mul_lengths.simps [simp del]

definition total_elements :: "arr \<Rightarrow> size_t outcome" where
  "total_elements a = mul_lengths (dim_lengths a) (unat (len a)) 0 1"

subsection \<open>Constructor\<close>

text \<open>
  \<^verbatim>\<open>malloc\<close> is taken to succeed; \<open>fresh\<close> is the indeterminate content of the new block.
  The request \<^verbatim>\<open>total_size + arr_len * element_size\<close> is computed in \<^verbatim>\<open>size_t\<close>; when
  it wraps to less than the header and the shape need, writing them overruns the block.
\<close>

definition fclib_arr_create :: "size_t \<Rightarrow> size_t \<Rightarrow> size_t list \<Rightarrow> (nat \<Rightarrow> byte) \<Rightarrow> arr outcome" where
  "fclib_arr_create dimensionality element_size lengths fresh =
     (let total_size = 8 + dimensionality * 8 in
      case mul_lengths lengths (unat dimensionality) 0 1 of
        Inl e \<Rightarrow> Inl e
      | Inr arr_len \<Rightarrow>
          (let n = unat (total_size + arr_len * element_size) in
           if n < 8 + unat dimensionality * 8 then Inl OutOfBounds
           else Inr \<lparr>len = dimensionality,
                     dim_lengths = take (unat dimensionality) lengths,
                     data = map fresh [0 ..< n - (8 + unat dimensionality * 8)]\<rparr>))"

subsection \<open>Fill strategies\<close>

function fill_seq_loop :: "byte list \<Rightarrow> size_t \<Rightarrow> nat \<Rightarrow> nat \<Rightarrow> byte list outcome" where
  "fill_seq_loop data_start element_size tot i =
     (if i < tot then
        (case memcpy_within data_start (unat (of_nat i * element_size))
                (unat ((of_nat i - 1) * element_size)) (unat element_size) of
           Inl e \<Rightarrow> Inl e
         | Inr data_start' \<Rightarrow> fill_seq_loop data_start' element_size tot (i + 1))
      else Inr data_start)"
  by pat_completeness auto
termination
  by (relation "measure (\<lambda>(data_start, element_size, tot, i). tot - i)") auto

declare fill_seq_loop.simps [simp del]

definition fclib_arr_fill_seq :: "arr \<Rightarrow> size_t \<Rightarrow> byte list \<Rightarrow> arr outcome" where
  "fclib_arr_fill_seq a element_size val =
     (case total_elements a of
        Inl e \<Rightarrow> Inl e
      | Inr tot \<Rightarrow>
          (case memcpy (data a) 0 val 0 (unat element_size) of
             Inl e \<Rightarrow> Inl e
           | Inr data_start \<Rightarrow>
               (case fill_seq_loop data_start element_size (unat tot) 1 of
                  Inl e \<Rightarrow> Inl e
                | Inr data_start' \<Rightarrow> Inr (a\<lparr>data := data_start'\<rparr>))))"

text \<open>
  The doubling loop does not advance when \<open>filled = 0\<close>, so as a function of its state it is
  partial: \<open>None\<close> is a loop that never ends. The fill functions enter it with
  \<open>filled = 1\<close>.
\<close>

partial_function (option)
  fill_exp_loop :: "byte list \<Rightarrow> size_t \<Rightarrow> size_t \<Rightarrow> size_t \<Rightarrow> byte list outcome option" where
  "fill_exp_loop data_start element_size tot filled =
     (if filled < tot then
        (let to_copy = (if filled \<le> tot - filled then filled else tot - filled) in
         case memcpy_within data_start (unat (filled * element_size))
                0 (unat (to_copy * element_size)) of
           Inl e \<Rightarrow> Some (Inl e)
         | Inr data_start' \<Rightarrow> fill_exp_loop data_start' element_size tot (filled + to_copy))
      else Some (Inr data_start))"

declare fill_exp_loop.simps [code]

definition fclib_arr_fill_exp :: "arr \<Rightarrow> size_t \<Rightarrow> byte list \<Rightarrow> arr outcome option" where
  "fclib_arr_fill_exp a element_size val =
     (case total_elements a of
        Inl e \<Rightarrow> Some (Inl e)
      | Inr tot \<Rightarrow>
          (case memcpy (data a) 0 val 0 (unat element_size) of
             Inl e \<Rightarrow> Some (Inl e)
           | Inr data_start \<Rightarrow>
               (case fill_exp_loop data_start element_size tot 1 of
                  None \<Rightarrow> None
                | Some (Inl e) \<Rightarrow> Some (Inl e)
                | Some (Inr data_start') \<Rightarrow> Some (Inr (a\<lparr>data := data_start'\<rparr>)))))"


definition fclib_arr_fill_val :: "arr \<Rightarrow> size_t \<Rightarrow> size_t \<Rightarrow> arr outcome option" where
  "fclib_arr_fill_val a element_size val =
     (case total_elements a of
        Inl e \<Rightarrow> Some (Inl e)
      | Inr tot \<Rightarrow>
          (case memcpy (data a) 0 (size_t_bytes val) 0 (unat element_size) of
             Inl e \<Rightarrow> Some (Inl e)
           | Inr data_start \<Rightarrow>
               if element_size < 128 then
                 (case fill_exp_loop data_start element_size tot 1 of
                    None \<Rightarrow> None
                  | Some (Inl e) \<Rightarrow> Some (Inl e)
                  | Some (Inr data_start') \<Rightarrow> Some (Inr (a\<lparr>data := data_start'\<rparr>)))
               else
                 (case fill_seq_loop data_start element_size (unat tot) 1 of
                    Inl e \<Rightarrow> Some (Inl e)
                  | Inr data_start' \<Rightarrow> Some (Inr (a\<lparr>data := data_start'\<rparr>)))))"

subsection \<open>Element accessor and mutator\<close>

text \<open>
  \<^verbatim>\<open>fclib_arr_access\<close> returns \<^verbatim>\<open>NULL\<close> (\<open>None\<close>) or the pointer
  \<^verbatim>\<open>data_start + offset * element_size\<close>, here the byte offset \<open>offset * element_size\<close>.
\<close>

function access_loop ::
  "size_t list \<Rightarrow> size_t list \<Rightarrow> nat \<Rightarrow> nat \<Rightarrow> size_t \<Rightarrow> size_t \<Rightarrow> size_t option outcome" where
  "access_loop lengths indices dimensionality i offset stride =
     (if i < dimensionality then
        (case rd indices i of
           Inl e \<Rightarrow> Inl e
         | Inr index \<Rightarrow>
             (case rd lengths i of
                Inl e \<Rightarrow> Inl e
              | Inr l \<Rightarrow>
                  if index \<ge> l then Inr None
                  else access_loop lengths indices dimensionality (i + 1)
                         (offset + index * stride) (stride * l)))
      else Inr (Some offset))"
  by pat_completeness auto
termination
  by (relation "measure (\<lambda>(lengths, indices, dimensionality, i, offset, stride). dimensionality - i)")
    auto

declare access_loop.simps [simp del]

definition fclib_arr_access :: "arr \<Rightarrow> size_t \<Rightarrow> size_t list \<Rightarrow> size_t option outcome" where
  "fclib_arr_access a element_size indices =
     (case access_loop (dim_lengths a) indices (unat (len a)) 0 0 1 of
        Inl e \<Rightarrow> Inl e
      | Inr None \<Rightarrow> Inr None
      | Inr (Some offset) \<Rightarrow> Inr (Some (offset * element_size)))"

text \<open>
  The three derivatives hand the result of \<^verbatim>\<open>fclib_arr_access\<close> to \<^verbatim>\<open>memcpy\<close> as it
  is, without a test for \<^verbatim>\<open>NULL\<close>. A null pointer given to \<^verbatim>\<open>memcpy\<close> is outside what
  the C standard defines, whatever the count, and is the fault \<open>NullPointer\<close> here; with
  a count of 0 an actual C library returns without touching memory. \<open>uninit\<close> is the
  indeterminate content of the local \<^verbatim>\<open>size_t value\<close> that \<^verbatim>\<open>fclib_arr_access_val\<close>
  copies into and returns.
\<close>

definition fclib_arr_access_val :: "arr \<Rightarrow> size_t \<Rightarrow> size_t list \<Rightarrow> size_t \<Rightarrow> size_t outcome" where
  "fclib_arr_access_val a element_size indices uninit =
     (case fclib_arr_access a element_size indices of
        Inl e \<Rightarrow> Inl e
      | Inr None \<Rightarrow> Inl NullPointer
      | Inr (Some element) \<Rightarrow>
          (case memcpy (size_t_bytes uninit) 0 (data a) (unat element) (unat element_size) of
             Inl e \<Rightarrow> Inl e
           | Inr val \<Rightarrow> Inr (bytes_size_t val)))"

definition fclib_arr_assign_at :: "arr \<Rightarrow> size_t \<Rightarrow> size_t list \<Rightarrow> byte list \<Rightarrow> arr outcome" where
  "fclib_arr_assign_at a element_size indices val =
     (case fclib_arr_access a element_size indices of
        Inl e \<Rightarrow> Inl e
      | Inr None \<Rightarrow> Inl NullPointer
      | Inr (Some element) \<Rightarrow>
          (case memcpy (data a) (unat element) val 0 (unat element_size) of
             Inl e \<Rightarrow> Inl e
           | Inr data' \<Rightarrow> Inr (a\<lparr>data := data'\<rparr>)))"

definition fclib_arr_assign_val_at :: "arr \<Rightarrow> size_t \<Rightarrow> size_t list \<Rightarrow> size_t \<Rightarrow> arr outcome" where
  "fclib_arr_assign_val_at a element_size indices val =
     (case fclib_arr_access a element_size indices of
        Inl e \<Rightarrow> Inl e
      | Inr None \<Rightarrow> Inl NullPointer
      | Inr (Some element) \<Rightarrow>
          (case memcpy (data a) (unat element) (size_t_bytes val) 0 (unat element_size) of
             Inl e \<Rightarrow> Inl e
           | Inr data' \<Rightarrow> Inr (a\<lparr>data := data'\<rparr>)))"

subsection \<open>One-dimensional slice\<close>

text \<open>
  The function reads the first shape word as the source length and copies from
  \<^verbatim>\<open>src->value + sizeof(size_t)\<close>, whatever the dimensionality of the source is.
  \<open>value_after_first_word\<close> is the content of the block from that address on: the
  remaining shape words, then the element storage. On a one-dimensional source it is the
  element storage.
\<close>

definition value_after_first_word :: "arr \<Rightarrow> byte list" where
  "value_after_first_word a = concat (map size_t_bytes (drop 1 (dim_lengths a))) @ data a"

definition fclib_arr_get_slice_1d ::
  "arr \<Rightarrow> size_t \<Rightarrow> size_t \<Rightarrow> size_t \<Rightarrow> (nat \<Rightarrow> byte) \<Rightarrow> arr outcome" where
  "fclib_arr_get_slice_1d src element_size from to fresh =
     (case rd (dim_lengths src) 0 of
        Inl e \<Rightarrow> Inl e
      | Inr src_len \<Rightarrow>
          (let real_to = (if to = 0 then src_len else to);
               real_to = (if real_to > src_len then src_len else real_to)
           in if from = real_to then Inl Aborted
              else if from > real_to \<and> real_to = 0 then Inl Aborted
              else
                (let real_from = (if from > real_to then real_to - 1 else from);
                     slice_len = real_to - real_from
                 in case fclib_arr_create 1 element_size [slice_len] fresh of
                      Inl e \<Rightarrow> Inl e
                    | Inr sl \<Rightarrow>
                        (case memcpy (data sl) 0 (value_after_first_word src)
                                (unat (real_from * element_size))
                                (unat (slice_len * element_size)) of
                           Inl e \<Rightarrow> Inl e
                         | Inr dest \<Rightarrow> Inr (sl\<lparr>data := dest\<rparr>)))))"

subsection \<open>General slice\<close>

text \<open>The validation loop: \<open>None\<close> is \<^verbatim>\<open>return NULL\<close>, otherwise the count of range axes.\<close>

function validate_ranges ::
  "size_t list \<Rightarrow> size_t list \<Rightarrow> nat \<Rightarrow> nat \<Rightarrow> size_t \<Rightarrow> size_t option outcome" where
  "validate_ranges src_dim_lengths ranges src_dimensionality i new_dimensionality =
     (if i < src_dimensionality then
        (case rd ranges (i * 2) of
           Inl e \<Rightarrow> Inl e
         | Inr from \<Rightarrow>
        (case rd ranges (i * 2 + 1) of
           Inl e \<Rightarrow> Inl e
         | Inr to \<Rightarrow>
        (case rd src_dim_lengths i of
           Inl e \<Rightarrow> Inl e
         | Inr l \<Rightarrow>
             if from \<noteq> to then
               (if to > l then Inr None
                else if to - from < 2 then Inr None
                else validate_ranges src_dim_lengths ranges src_dimensionality (i + 1)
                       (new_dimensionality + 1))
             else
               (if from \<ge> l then Inr None
                else validate_ranges src_dim_lengths ranges src_dimensionality (i + 1)
                       new_dimensionality))))
      else Inr (Some new_dimensionality))"
  by pat_completeness auto
termination
  by (relation "measure (\<lambda>(src_dim_lengths, ranges, src_dimensionality, i, new_dimensionality).
        src_dimensionality - i)") auto

declare validate_ranges.simps [simp del]

text \<open>The lengths of the range axes, written to \<^verbatim>\<open>new_dim_lengths\<close> in axis order.\<close>

function new_lengths_loop :: "size_t list \<Rightarrow> nat \<Rightarrow> nat \<Rightarrow> size_t list \<Rightarrow> size_t list outcome" where
  "new_lengths_loop ranges src_dimensionality i new_dim_lengths =
     (if i < src_dimensionality then
        (case rd ranges (i * 2) of
           Inl e \<Rightarrow> Inl e
         | Inr from \<Rightarrow>
        (case rd ranges (i * 2 + 1) of
           Inl e \<Rightarrow> Inl e
         | Inr to \<Rightarrow>
             if from \<noteq> to
             then new_lengths_loop ranges src_dimensionality (i + 1) (new_dim_lengths @ [to - from])
             else new_lengths_loop ranges src_dimensionality (i + 1) new_dim_lengths))
      else Inr new_dim_lengths)"
  by pat_completeness auto
termination
  by (relation "measure (\<lambda>(ranges, src_dimensionality, i, new_dim_lengths). src_dimensionality - i)")
    auto

declare new_lengths_loop.simps [simp del]

text \<open>
  \<^verbatim>\<open>src_strides[i] = src_strides[i - 1] * src_dim_lengths[i - 1]\<close>, entered with
  \<^verbatim>\<open>src_strides[0] = 1\<close> and \<open>i = 1\<close>; the entries are written in order.
\<close>

function strides_loop :: "size_t list \<Rightarrow> nat \<Rightarrow> nat \<Rightarrow> size_t list \<Rightarrow> size_t list outcome" where
  "strides_loop src_dim_lengths src_dimensionality i src_strides =
     (if i < src_dimensionality then
        (case rd src_strides (i - 1) of
           Inl e \<Rightarrow> Inl e
         | Inr s \<Rightarrow>
        (case rd src_dim_lengths (i - 1) of
           Inl e \<Rightarrow> Inl e
         | Inr l \<Rightarrow> strides_loop src_dim_lengths src_dimensionality (i + 1) (src_strides @ [s * l])))
      else Inr src_strides)"
  by pat_completeness auto
termination
  by (relation "measure (\<lambda>(src_dim_lengths, src_dimensionality, i, src_strides).
        src_dimensionality - i)") auto

declare strides_loop.simps [simp del]

text \<open>\<^verbatim>\<open>current_indices[i] = ranges[i * 2]\<close>.\<close>

function init_indices_loop :: "size_t list \<Rightarrow> nat \<Rightarrow> nat \<Rightarrow> size_t list \<Rightarrow> size_t list outcome" where
  "init_indices_loop ranges src_dimensionality i current_indices =
     (if i < src_dimensionality then
        (case rd ranges (i * 2) of
           Inl e \<Rightarrow> Inl e
         | Inr from \<Rightarrow>
             init_indices_loop ranges src_dimensionality (i + 1) (current_indices @ [from]))
      else Inr current_indices)"
  by pat_completeness auto
termination
  by (relation "measure (\<lambda>(ranges, src_dimensionality, i, current_indices). src_dimensionality - i)")
    auto

declare init_indices_loop.simps [simp del]

text \<open>
  The index increment \<^verbatim>\<open>for (i = src_dimensionality - 1; i >= start_dim; i--)\<close>. Its
  counter is unsigned: with \<open>start_dim = 0\<close> the test never fails, and when the body leaves
  \<open>i = 0\<close> without \<^verbatim>\<open>break\<close> the decrement wraps to \<open>2 ^ 64 - 1\<close> and the next
  iteration reads \<^verbatim>\<open>ranges[i * 2]\<close> far outside \<^verbatim>\<open>ranges\<close>.
\<close>

function next_indices :: "size_t list \<Rightarrow> nat \<Rightarrow> nat \<Rightarrow> size_t list \<Rightarrow> size_t list outcome" where
  "next_indices ranges start_dim i current_indices =
     (if i \<ge> start_dim then
        (case rd ranges (i * 2) of
           Inl e \<Rightarrow> Inl e
         | Inr from \<Rightarrow>
        (case rd ranges (i * 2 + 1) of
           Inl e \<Rightarrow> Inl e
         | Inr to \<Rightarrow>
             if from \<noteq> to then
               (case rd current_indices i of
                  Inl e \<Rightarrow> Inl e
                | Inr c \<Rightarrow>
                    if c + 1 < to then Inr (current_indices[i := c + 1])
                    else if i = 0 then Inl OutOfBounds
                    else next_indices ranges start_dim (i - 1) (current_indices[i := from]))
             else if i = 0 then Inl OutOfBounds
             else next_indices ranges start_dim (i - 1) current_indices))
      else Inr current_indices)"
  by pat_completeness auto
termination
  by (relation "measure (\<lambda>(ranges, start_dim, i, current_indices). i)") auto

declare next_indices.simps [simp del]

text \<open>\<^verbatim>\<open>src_offset += current_indices[i] * src_strides[i]\<close>.\<close>

function src_offset_loop :: "size_t list \<Rightarrow> size_t list \<Rightarrow> nat \<Rightarrow> nat \<Rightarrow> size_t \<Rightarrow> size_t outcome" where
  "src_offset_loop current_indices src_strides src_dimensionality i src_offset =
     (if i < src_dimensionality then
        (case rd current_indices i of
           Inl e \<Rightarrow> Inl e
         | Inr c \<Rightarrow>
        (case rd src_strides i of
           Inl e \<Rightarrow> Inl e
         | Inr s \<Rightarrow>
             src_offset_loop current_indices src_strides src_dimensionality (i + 1)
               (src_offset + c * s)))
      else Inr src_offset)"
  by pat_completeness auto
termination
  by (relation "measure (\<lambda>(current_indices, src_strides, src_dimensionality, i, src_offset).
        src_dimensionality - i)") auto

declare src_offset_loop.simps [simp del]

text \<open>
  The loop over the chunks; it returns the element storage of the result. The increment
  starts at \<^verbatim>\<open>src_dimensionality - 1\<close>, which wraps when there is no dimension.
\<close>

function copy_chunks ::
  "byte list \<Rightarrow> size_t \<Rightarrow> size_t list \<Rightarrow> size_t list \<Rightarrow> nat \<Rightarrow> bool \<Rightarrow> size_t \<Rightarrow> nat \<Rightarrow>
   nat \<Rightarrow> size_t list \<Rightarrow> size_t \<Rightarrow> byte list \<Rightarrow> byte list outcome" where
  "copy_chunks src_data element_size ranges src_strides src_dimensionality is_first_range
     chunk_size num_chunks chunk current_indices dest_index dest_data =
     (if chunk < num_chunks then
        (case (if chunk > 0
               then (if src_dimensionality = 0 then Inl OutOfBounds
                     else next_indices ranges (if is_first_range then 1 else 0)
                            (src_dimensionality - 1) current_indices)
               else Inr current_indices) of
           Inl e \<Rightarrow> Inl e
         | Inr current_indices' \<Rightarrow>
        (case src_offset_loop current_indices' src_strides src_dimensionality 0 0 of
           Inl e \<Rightarrow> Inl e
         | Inr src_offset \<Rightarrow>
        (case memcpy dest_data (unat (dest_index * element_size))
                src_data (unat (src_offset * element_size)) (unat (chunk_size * element_size)) of
           Inl e \<Rightarrow> Inl e
         | Inr dest_data' \<Rightarrow>
             copy_chunks src_data element_size ranges src_strides src_dimensionality is_first_range
               chunk_size num_chunks (chunk + 1) current_indices' (dest_index + chunk_size)
               dest_data')))
      else Inr dest_data)"
  by pat_completeness auto
termination
  by (relation "measure (\<lambda>(src_data, element_size, ranges, src_strides, src_dimensionality,
        is_first_range, chunk_size, num_chunks, chunk, current_indices, dest_index, dest_data).
        num_chunks - chunk)") auto

declare copy_chunks.simps [simp del]

text \<open>
  The three temporary arrays \<^verbatim>\<open>new_dim_lengths\<close>, \<^verbatim>\<open>src_strides\<close> and
  \<^verbatim>\<open>current_indices\<close> are lists: their \<^verbatim>\<open>malloc\<close> is taken to succeed and their
  \<^verbatim>\<open>free\<close> leaves no trace. The source is a \<^verbatim>\<open>const\<close> argument that is only read, so
  the function returns the result alone.
\<close>

definition fclib_arr_get_slice ::
  "arr \<Rightarrow> size_t \<Rightarrow> size_t list \<Rightarrow> (nat \<Rightarrow> byte) \<Rightarrow> arr option outcome" where
  "fclib_arr_get_slice src element_size ranges fresh =
     (let src_dimensionality = unat (len src) in
      case validate_ranges (dim_lengths src) ranges src_dimensionality 0 0 of
        Inl e \<Rightarrow> Inl e
      | Inr None \<Rightarrow> Inr None
      | Inr (Some new_dimensionality) \<Rightarrow>
      if \<not> new_dimensionality > 0 then Inl AssertionFailed
      else
     (case rd ranges 0 of
        Inl e \<Rightarrow> Inl e
      | Inr r0 \<Rightarrow>
     (case rd ranges 1 of
        Inl e \<Rightarrow> Inl e
      | Inr r1 \<Rightarrow>
      let is_first_range = (r0 \<noteq> r1) in
      if len src = 1 \<and> new_dimensionality = 1 then
        (if \<not> is_first_range then Inl AssertionFailed
         else case fclib_arr_get_slice_1d src element_size r0 r1 fresh of
                Inl e \<Rightarrow> Inl e
              | Inr sl \<Rightarrow> Inr (Some sl))
      else
     (case new_lengths_loop ranges src_dimensionality 0 [] of
        Inl e \<Rightarrow> Inl e
      | Inr new_dim_lengths \<Rightarrow>
     (case fclib_arr_create new_dimensionality element_size new_dim_lengths fresh of
        Inl e \<Rightarrow> Inl e
      | Inr result \<Rightarrow>
     (case strides_loop (dim_lengths src) src_dimensionality 1 [1] of
        Inl e \<Rightarrow> Inl e
      | Inr src_strides \<Rightarrow>
     (case mul_lengths new_dim_lengths (unat new_dimensionality) 0 1 of
        Inl e \<Rightarrow> Inl e
      | Inr total_result_elements \<Rightarrow>
     (case init_indices_loop ranges src_dimensionality 0 [] of
        Inl e \<Rightarrow> Inl e
      | Inr current_indices \<Rightarrow>
      let chunk_size = (if is_first_range then r1 - r0 else 1) in
      if total_result_elements mod chunk_size \<noteq> 0 then Inl AssertionFailed
      else
        (let num_chunks = total_result_elements div chunk_size in
         case copy_chunks (data src) element_size ranges src_strides src_dimensionality
                is_first_range chunk_size (unat num_chunks) 0 current_indices 0 (data result) of
           Inl e \<Rightarrow> Inl e
         | Inr dest_data \<Rightarrow> Inr (Some (result\<lparr>data := dest_data\<rparr>)))))))))))"

section \<open>Notions of the specification\<close>

text \<open>\<open>rep k seed\<close> is the content of \<open>k\<close> consecutive slots that all hold \<open>seed\<close>.\<close>

definition rep :: "nat \<Rightarrow> byte list \<Rightarrow> byte list" where
  "rep k seed = concat (replicate k seed)"

text \<open>
  \<open>store_seed\<close> is the first step of every fill on its own: \<^verbatim>\<open>element_size\<close> bytes of
  the seed copied to the start of the element storage.
\<close>

definition store_seed :: "arr \<Rightarrow> size_t \<Rightarrow> byte list \<Rightarrow> arr outcome" where
  "store_seed a element_size val =
     (case memcpy (data a) 0 val 0 (unat element_size) of
        Inl e \<Rightarrow> Inl e
      | Inr data_start \<Rightarrow> Inr (a\<lparr>data := data_start\<rparr>))"

text \<open>
  The layout rule: axis 0 varies fastest, \<open>stride[0] = 1\<close> and
  \<open>stride[i] = stride[i - 1] * shape[i - 1]\<close>, in \<^verbatim>\<open>size_t\<close> arithmetic.
\<close>

fun stride :: "size_t list \<Rightarrow> nat \<Rightarrow> size_t" where
  "stride lengths 0 = 1"
| "stride lengths (Suc i) = stride lengths i * lengths ! i"

text \<open>
  The invariant of an array block for a given element size: the shape has \<open>len\<close> entries,
  the element count is the product of the shape, the element storage holds that many slots
  of \<^verbatim>\<open>element_size\<close> bytes, and the size of the block (header, shape, storage) is a
  \<^verbatim>\<open>size_t\<close> value.
\<close>

definition arr_ok :: "size_t \<Rightarrow> arr \<Rightarrow> bool" where
  "arr_ok element_size a \<longleftrightarrow>
     length (dim_lengths a) = unat (len a) \<and>
     prod_list (map unat (dim_lengths a)) < 2 ^ 64 \<and>
     length (data a) = prod_list (map unat (dim_lengths a)) * unat element_size \<and>
     8 + unat (len a) * 8 + length (data a) < 2 ^ 64"

text \<open>
  The pair \<open>(from_i, to_i)\<close> of axis \<open>i\<close> in \<^verbatim>\<open>ranges\<close>, and the rule of the general
  slicer for one axis: a fixed axis (\<open>from_i = to_i\<close>) needs \<open>from_i < shape[i]\<close>, a range
  axis needs \<open>to_i \<le> shape[i]\<close> and \<open>to_i - from_i \<ge> 2\<close>.
\<close>

definition range_from :: "size_t list \<Rightarrow> nat \<Rightarrow> size_t" where
  "range_from ranges i = ranges ! (i * 2)"

definition range_to :: "size_t list \<Rightarrow> nat \<Rightarrow> size_t" where
  "range_to ranges i = ranges ! (i * 2 + 1)"

definition is_range :: "size_t list \<Rightarrow> nat \<Rightarrow> bool" where
  "is_range ranges i \<longleftrightarrow> range_from ranges i \<noteq> range_to ranges i"

definition axis_ok :: "size_t list \<Rightarrow> size_t list \<Rightarrow> nat \<Rightarrow> bool" where
  "axis_ok shape ranges i \<longleftrightarrow>
     (if is_range ranges i
      then range_to ranges i \<le> shape ! i \<and> 2 \<le> range_to ranges i - range_from ranges i
      else range_from ranges i < shape ! i)"

text \<open>The axes kept as ranges, and the shape they give the result.\<close>

definition range_axes :: "size_t list \<Rightarrow> nat \<Rightarrow> nat list" where
  "range_axes ranges d = filter (is_range ranges) [0 ..< d]"

definition sliced_shape :: "size_t list \<Rightarrow> nat \<Rightarrow> size_t list" where
  "sliced_shape ranges d = map (\<lambda>i. range_to ranges i - range_from ranges i) (range_axes ranges d)"

subsection \<open>The index increment as a counter\<close>

text \<open>
  The state of the index increment of the general slicer, read as a number: axis 0 is
  never stepped (it is fixed or copied as a chunk), every other range axis is a digit
  with its length as base, and the last axis is the least significant digit. \<open>steps\<close> is
  the number of states over the first \<open>n\<close> axes, \<open>rank\<close> the number a state stands for.
\<close>

definition digit_base :: "size_t list \<Rightarrow> nat \<Rightarrow> nat" where
  "digit_base ranges i =
     (if 1 \<le> i \<and> is_range ranges i then unat (range_to ranges i - range_from ranges i) else 1)"

definition digit :: "size_t list \<Rightarrow> size_t list \<Rightarrow> nat \<Rightarrow> nat" where
  "digit ranges current_indices i =
     (if 1 \<le> i \<and> is_range ranges i then unat (current_indices ! i - range_from ranges i) else 0)"

fun rank :: "size_t list \<Rightarrow> size_t list \<Rightarrow> nat \<Rightarrow> nat" where
  "rank ranges current_indices 0 = 0"
| "rank ranges current_indices (Suc n) =
     rank ranges current_indices n * digit_base ranges n + digit ranges current_indices n"

fun steps :: "size_t list \<Rightarrow> nat \<Rightarrow> nat" where
  "steps ranges 0 = 1"
| "steps ranges (Suc n) = steps ranges n * digit_base ranges n"

text \<open>
  A state of the increment is in range when every stepped axis lies in its range and
  every other axis stands at its \<open>from\<close>.
\<close>

definition in_range :: "size_t list \<Rightarrow> nat \<Rightarrow> size_t list \<Rightarrow> bool" where
  "in_range ranges d current_indices \<longleftrightarrow>
     length current_indices = d \<and>
     list_all (\<lambda>i. if 1 \<le> i \<and> is_range ranges i
                    then range_from ranges i \<le> current_indices ! i \<and>
                         current_indices ! i < range_to ranges i
                    else current_indices ! i = range_from ranges i) [0 ..< d]"

text \<open>
  The ranges the slicer is meant for: every axis satisfies its rule and no range is
  reversed.
\<close>

definition ranges_ok :: "size_t list \<Rightarrow> size_t list \<Rightarrow> nat \<Rightarrow> bool" where
  "ranges_ok shape ranges d \<longleftrightarrow>
     list_all (\<lambda>i. axis_ok shape ranges i \<and> range_from ranges i \<le> range_to ranges i) [0 ..< d]"

section \<open>Arithmetic and memory lemmas\<close>

lemma unat_of_nat_mult:
  "i * unat (w::size_t) < 2 ^ 64 \<Longrightarrow> unat (of_nat i * w) = i * unat w"
proof -
  assume a: "i * unat w < 2 ^ 64"
  have "unat (of_nat i * w) = (unat (of_nat i :: size_t) * unat w) mod 2 ^ 64"
    by (simp add: unat_word_ariths)
  also have "\<dots> = (i mod 2 ^ 64 * unat w) mod 2 ^ 64"
    by (simp add: unat_of_nat)
  also have "\<dots> = (i * unat w) mod 2 ^ 64"
    by (simp add: mod_mult_left_eq)
  also have "\<dots> = i * unat w" using a by simp
  finally show ?thesis .
qed

lemma unat_mult_small:
  "unat (x::size_t) * unat (w::size_t) < 2 ^ 64 \<Longrightarrow> unat (x * w) = unat x * unat w"
  by (simp add: unat_word_ariths)

lemma rd_ok [simp]: "i < length xs \<Longrightarrow> rd xs i = Inr (xs ! i)"
  by (simp add: rd_def)

lemma mul_lengths_prod:
  "i \<le> d \<Longrightarrow> d \<le> length ls \<Longrightarrow>
   mul_lengths ls d i acc = Inr (acc * prod_list (drop i (take d ls)))"
proof (induction "d - i" arbitrary: i acc)
  case 0
  then show ?case by (simp add: mul_lengths.simps)
next
  case (Suc k)
  then have lt: "i < d" by simp
  have il: "i < length ls" using lt Suc.prems by simp
  have dr: "drop i (take d ls) = ls ! i # drop (Suc i) (take d ls)"
    using lt il Suc.prems by (simp add: Cons_nth_drop_Suc [symmetric])
  have "mul_lengths ls d i acc = mul_lengths ls d (i + 1) (acc * ls ! i)"
    using lt il by (subst mul_lengths.simps) simp
  also have "\<dots> = Inr (acc * ls ! i * prod_list (drop (i + 1) (take d ls)))"
    using Suc.hyps(1) [of "i + 1" "acc * ls ! i"] Suc.hyps(2) lt Suc.prems by simp
  finally show ?case by (simp add: dr mult.assoc)
qed

lemma prod_list_zero_word: "(0::size_t) \<in> set xs \<Longrightarrow> prod_list xs = 0"
  by (induction xs) auto


lemma length_rep [simp]: "length (rep k seed) = k * length seed"
  by (induction k) (simp_all add: rep_def)

lemma rep_add: "rep (j + k) seed = rep j seed @ rep k seed"
  by (simp add: rep_def replicate_add)



lemma rep_snoc: "rep (i + 1) s = rep i s @ s"
  by (simp only: rep_add) (simp add: rep_def)

lemma rep_slot: "j < k \<Longrightarrow> take (length s) (drop (j * length s) (rep k s)) = s"
proof -
  assume "j < k"
  then obtain m where k: "k = j + (1 + m)"
    by (metis less_imp_Suc_add plus_1_eq_Suc add_Suc_right add_Suc)
  have "rep k s = rep j s @ s @ rep m s"
    by (simp only: k rep_add) (simp add: rep_def)
  then show ?thesis by simp
qed

lemma drop_append_drop: "length xs = n \<Longrightarrow> n \<le> m \<Longrightarrow> drop m (xs @ drop n d) = drop m d"
  by simp

lemma memcpy_ok:
  "s + n \<le> length src \<Longrightarrow> d + n \<le> length dest \<Longrightarrow>
   memcpy dest d src s n = Inr (take d dest @ take n (drop s src) @ drop (d + n) dest)"
  by (simp add: memcpy_def)

lemma memcpy_within_eq: "s + n \<le> d \<Longrightarrow> memcpy_within mem d s n = memcpy mem d mem s n"
  by (simp add: memcpy_within_def)

lemma memcpy_fail:
  "\<not> (s + n \<le> length src \<and> d + n \<le> length dest) \<Longrightarrow> memcpy dest d src s n = Inl OutOfBounds"
  by (simp add: memcpy_def)

lemma fill_seq_loop_closed:
  fixes esw :: size_t
  defines "E \<equiv> unat esw"
  assumes "length d < 2 ^ 64" "1 \<le> i" "i \<le> tot" "i * E \<le> length d"
    and "take (i * E) d = rep i (take E d)"
  shows "fill_seq_loop d esw tot i =
           (if tot * E \<le> length d then Inr (rep tot (take E d) @ drop (tot * E) d)
            else Inl OutOfBounds)"
  using assms(2-)
proof (induction "tot - i" arbitrary: i d)
  case 0
  then have "i = tot" by simp
  with 0 show ?case
    by (subst fill_seq_loop.simps) (metis append_take_drop_id less_irrefl)
next
  case (Suc k)
  then have lt: "i < tot" by simp
  have pred: "(i - 1) * E + E = i * E" using Suc.prems(2) by (cases i) simp_all
  have EiE: "E \<le> i * E" using Suc.prems(2) by simp
  have El: "E \<le> length d" using EiE Suc.prems(4) by (rule le_trans)
  have seedlen: "length (take E d) = E" using El by simp
  have o1: "unat (of_nat i * esw) = i * E"
    unfolding E_def using Suc.prems by (intro unat_of_nat_mult) (simp add: E_def)
  have o2: "unat ((of_nat i - 1) * esw) = (i - 1) * E"
  proof -
    have e: "(of_nat i - 1 :: size_t) = of_nat (i - 1)" using Suc.prems by simp
    have "(i - 1) * E \<le> i * E" by simp
    also have "\<dots> \<le> length d" using Suc.prems by simp
    also have "\<dots> < 2 ^ 64" using Suc.prems by simp
    finally have "(i - 1) * unat esw < 2 ^ 64" by (simp only: E_def)
    then have "unat (of_nat (i - 1) * esw) = (i - 1) * unat esw" by (rule unat_of_nat_mult)
    then show ?thesis by (simp only: e E_def)
  qed
  have srcok: "(i - 1) * E + E \<le> length d"
    using Suc.prems(4) pred by simp
  have mw: "memcpy_within d (unat (of_nat i * esw)) (unat ((of_nat i - 1) * esw)) (unat esw) =
      memcpy d (i * E) d ((i - 1) * E) E"
    unfolding o1 o2 E_def [symmetric] using pred by (intro memcpy_within_eq) simp
  show ?case
  proof (cases "i * E + E \<le> length d")
    case False
    have "(i + 1) * E \<le> tot * E" using lt by (intro mult_le_mono1) simp
    then have "\<not> tot * E \<le> length d" using False by simp
    moreover have "fill_seq_loop d esw tot i = Inl OutOfBounds"
      using lt False by (subst fill_seq_loop.simps) (simp add: mw memcpy_def)
    ultimately show ?thesis by simp
  next
    case True
    define d' where "d' = take (i * E) d @ take E (drop ((i - 1) * E) d) @ drop (i * E + E) d"
    have slot: "take E (drop ((i - 1) * E) d) = take E d"
    proof -
      have "take E (drop ((i - 1) * E) d) = drop ((i - 1) * E) (take (i * E) d)"
        using pred by (simp add: take_drop add.commute)
      also have "\<dots> = drop ((i - 1) * length (take E d)) (rep i (take E d))"
        using Suc.prems seedlen by simp
      also have "\<dots> = take (length (take E d)) (drop ((i - 1) * length (take E d)) (rep i (take E d)))"
      proof -
        have "length (rep i (take E d)) = (i - 1) * E + E" using pred seedlen by simp
        then have "length (drop ((i - 1) * E) (rep i (take E d))) \<le> E" by simp
        then show ?thesis by (simp only: seedlen take_all)
      qed
      also have "\<dots> = take E d"
        using Suc.prems by (intro rep_slot) simp
      finally show ?thesis .
    qed
    have d'_eq: "d' = rep (i + 1) (take E d) @ drop ((i + 1) * E) d"
    proof -
      have "i * E + E = (i + 1) * E" by simp
      then show ?thesis
        by (simp only: d'_def slot Suc.prems(5) rep_snoc append_assoc)
    qed
    have len': "length d' = length d"
      unfolding d'_def using True srcok by simp
    have seed': "take E d' = take E d"
    proof -
      show ?thesis unfolding d'_def using Suc.prems(4) EiE by (simp add: min_absorb2)
    qed
    have step: "fill_seq_loop d esw tot i = fill_seq_loop d' esw tot (i + 1)"
      using lt True srcok
      by (subst fill_seq_loop.simps) (simp add: mw memcpy_def d'_def)
    have take': "take ((i + 1) * E) d' = rep (i + 1) (take E d')"
      unfolding seed' unfolding d'_eq using seedlen by simp
    have IH: "fill_seq_loop d' esw tot (i + 1) =
           (if tot * E \<le> length d' then Inr (rep tot (take E d') @ drop (tot * E) d')
            else Inl OutOfBounds)"
      using Suc.hyps(2) lt len' Suc.prems True take'
      by (intro Suc.hyps(1)) simp_all
    have dr: "tot * E \<le> length d \<Longrightarrow> drop (tot * E) d' = drop (tot * E) d"
    proof -
      assume "tot * E \<le> length d"
      have le: "(i + 1) * E \<le> tot * E" using lt by (intro mult_le_mono1) simp
      have "length (rep (i + 1) (take E d)) = (i + 1) * E" using seedlen by simp
      then show ?thesis unfolding d'_eq using le by (rule drop_append_drop)
    qed
    show ?thesis unfolding step IH len' seed' using dr by simp
  qed
qed




lemma fill_seq_loop_from_1:
  fixes esw tot :: size_t
  assumes "length d < 2 ^ 64" "unat esw \<le> length d"
  shows "fill_seq_loop d esw (unat tot) 1 =
           (if max 1 (unat tot) * unat esw \<le> length d
            then Inr (rep (max 1 (unat tot)) (take (unat esw) d) @ drop (max 1 (unat tot) * unat esw) d)
            else Inl OutOfBounds)"
proof (cases "1 \<le> unat tot")
  case True
  then have m: "max 1 (unat tot) = unat tot" by simp
  have "take (1 * unat esw) d = rep 1 (take (unat esw) d)" by (simp add: rep_def)
  then show ?thesis
    unfolding m using assms True by (intro fill_seq_loop_closed) simp_all
next
  case False
  then have z: "unat tot = 0" by simp
  have "rep 1 (take (unat esw) d) @ drop (unat esw) d = d" by (simp add: rep_def)
  then show ?thesis
    using assms(2) by (subst fill_seq_loop.simps) (simp add: z)
qed




section \<open>Fill strategies\<close>




lemma total_elements_zero_axis:
  assumes "length (dim_lengths a) = unat (len a)" "0 \<in> set (dim_lengths a)"
  shows "total_elements a = Inr 0"
proof -
  have "total_elements a = Inr (1 * prod_list (drop 0 (take (unat (len a)) (dim_lengths a))))"
    unfolding total_elements_def using assms(1) by (intro mul_lengths_prod) simp_all
  then show ?thesis using assms by (simp add: prod_list_zero_word)
qed

lemma fill_seq_loop_none: "fill_seq_loop d esw 0 (Suc 0) = Inr d"
  by (subst fill_seq_loop.simps) simp

lemma fill_exp_loop_none: "fill_exp_loop d esw 0 1 = Some (Inr d)"
  by (subst fill_exp_loop.simps) simp

text \<open>
  Claim C10. On an array whose shape has a zero-length axis (so that the element count is
  0) each of \<^verbatim>\<open>fclib_arr_fill_seq\<close>, \<^verbatim>\<open>fclib_arr_fill_exp\<close> and \<^verbatim>\<open>fclib_arr_fill_val\<close>
  still does exactly the copy of \<^verbatim>\<open>element_size\<close> seed bytes to the start of the element
  storage and nothing else: that write is not guarded by the element count. When the
  element storage is empty, as the constructor leaves it for such a shape, and
  \<^verbatim>\<open>element_size\<close> is not 0, the write lands outside the block.
\<close>

theorem fill_seed_write_unguarded:
  assumes "length (dim_lengths a) = unat (len a)" and "0 \<in> set (dim_lengths a)"
  shows "total_elements a = Inr 0
       \<and> fclib_arr_fill_seq a element_size val = store_seed a element_size val
       \<and> fclib_arr_fill_exp a element_size val = Some (store_seed a element_size val)
       \<and> fclib_arr_fill_val a element_size v = Some (store_seed a element_size (size_t_bytes v))
       \<and> (if data a = [] \<and> element_size \<noteq> 0
          then store_seed a element_size val = Inl OutOfBounds
          else True)"
proof -
  have t: "total_elements a = Inr 0" using assms by (rule total_elements_zero_axis)
  have "fclib_arr_fill_seq a element_size val = store_seed a element_size val"
    unfolding fclib_arr_fill_seq_def store_seed_def t
    by (simp add: fill_seq_loop_none split: sum.splits)
  moreover have "fclib_arr_fill_exp a element_size val = Some (store_seed a element_size val)"
    unfolding fclib_arr_fill_exp_def store_seed_def t
    by (simp add: fill_exp_loop_none split: sum.splits)
  moreover have "fclib_arr_fill_val a element_size v =
      Some (store_seed a element_size (size_t_bytes v))"
    unfolding fclib_arr_fill_val_def store_seed_def t
    by (simp add: fill_exp_loop_none fill_seq_loop_none split: sum.splits)
  moreover have "store_seed a element_size val = Inl OutOfBounds"
    if "data a = []" "element_size \<noteq> 0"
    using that by (simp add: store_seed_def memcpy_def unat_eq_0)
  ultimately show ?thesis using t by simp
qed

theorem fill_seed_write_unguarded_witness:
  "0 \<in> set (dim_lengths \<lparr>len = 2, dim_lengths = [3, 0], data = []\<rparr>)
   \<and> total_elements \<lparr>len = 2, dim_lengths = [3, 0], data = []\<rparr> = Inr 0
   \<and> fclib_arr_fill_seq \<lparr>len = 2, dim_lengths = [3, 0], data = []\<rparr> 4 [7, 0, 0, 0] = Inl OutOfBounds
   \<and> fclib_arr_fill_exp \<lparr>len = 2, dim_lengths = [3, 0], data = []\<rparr> 4 [7, 0, 0, 0] =
       Some (Inl OutOfBounds)
   \<and> fclib_arr_fill_val \<lparr>len = 2, dim_lengths = [3, 0], data = []\<rparr> 4 7 = Some (Inl OutOfBounds)"
proof -
  have h1: "length (dim_lengths \<lparr>len = 2, dim_lengths = [3, 0], data = []\<rparr>) =
      unat (len \<lparr>len = 2, dim_lengths = [3, 0], data = []\<rparr>)" by simp
  have h2: "0 \<in> set (dim_lengths \<lparr>len = 2, dim_lengths = [3, 0], data = []\<rparr>)" by simp
  have s: "store_seed \<lparr>len = 2, dim_lengths = [3, 0], data = []\<rparr> 4 bs = Inl OutOfBounds" for bs
    by (simp add: store_seed_def memcpy_def)
  show ?thesis
    using h2 fill_seed_write_unguarded [OF h1 h2, of 4 "[7, 0, 0, 0]" 7]
    by (simp only: s)
qed

section \<open>Element access\<close>

lemma access_loop_sum:
  assumes "i \<le> d" "d \<le> length ls" "d \<le> length idx"
  shows "access_loop ls idx d i (\<Sum>j<i. idx ! j * stride ls j) (stride ls i) =
           (if \<forall>j. i \<le> j \<and> j < d \<longrightarrow> idx ! j < ls ! j
            then Inr (Some (\<Sum>j<d. idx ! j * stride ls j)) else Inr None)"
  using assms
proof (induction "d - i" arbitrary: i)
  case 0
  then have "i = d" by simp
  then show ?case by (subst access_loop.simps) simp
next
  case (Suc k)
  then have lt: "i < d" by simp
  show ?case
  proof (cases "idx ! i < ls ! i")
    case False
    then have "\<not> (\<forall>j. i \<le> j \<and> j < d \<longrightarrow> idx ! j < ls ! j)" using lt by auto
    moreover have "access_loop ls idx d i (\<Sum>j<i. idx ! j * stride ls j) (stride ls i) = Inr None"
      using lt False Suc.prems by (subst access_loop.simps) (simp add: not_less)
    ultimately show ?thesis by simp
  next
    case True
    have nle: "\<not> ls ! i \<le> idx ! i" using True by simp
    have step: "access_loop ls idx d i (\<Sum>j<i. idx ! j * stride ls j) (stride ls i) =
        access_loop ls idx d (i + 1) (\<Sum>j<i + 1. idx ! j * stride ls j) (stride ls (i + 1))"
      using lt nle Suc.prems by (subst access_loop.simps) simp
    have IH: "access_loop ls idx d (i + 1) (\<Sum>j<i + 1. idx ! j * stride ls j) (stride ls (i + 1)) =
           (if \<forall>j. i + 1 \<le> j \<and> j < d \<longrightarrow> idx ! j < ls ! j
            then Inr (Some (\<Sum>j<d. idx ! j * stride ls j)) else Inr None)"
      using Suc.hyps(2) lt Suc.prems by (intro Suc.hyps(1)) simp_all
    have "(\<forall>j. i \<le> j \<and> j < d \<longrightarrow> idx ! j < ls ! j) \<longleftrightarrow>
          (\<forall>j. i + 1 \<le> j \<and> j < d \<longrightarrow> idx ! j < ls ! j)"
      using True by (metis Suc_eq_plus1 Suc_leI le_neq_implies_less le_simps(3) less_imp_le_nat not_less_eq_eq)
    then show ?thesis unfolding step IH by simp
  qed
qed

lemma fclib_arr_access_eq:
  assumes "length (dim_lengths a) = unat (len a)" "length indices = unat (len a)"
  shows "fclib_arr_access a element_size indices =
           (if \<forall>i < unat (len a). indices ! i < dim_lengths a ! i
            then Inr (Some ((\<Sum>i < unat (len a). indices ! i * stride (dim_lengths a) i) * element_size))
            else Inr None)"
proof -
  have "access_loop (dim_lengths a) indices (unat (len a)) 0
          (\<Sum>j<0. indices ! j * stride (dim_lengths a) j) (stride (dim_lengths a) 0) =
        (if \<forall>j. 0 \<le> j \<and> j < unat (len a) \<longrightarrow> indices ! j < dim_lengths a ! j
         then Inr (Some (\<Sum>j<unat (len a). indices ! j * stride (dim_lengths a) j)) else Inr None)"
    using assms by (intro access_loop_sum) simp_all
  then show ?thesis by (simp add: fclib_arr_access_def)
qed


lemma stride_of_nat:
  "i \<le> length ls \<Longrightarrow> stride ls i = of_nat (prod_list (map unat (take i ls)))"
proof (induction i)
  case 0
  then show ?case by simp
next
  case (Suc i)
  then have "take (Suc i) ls = take i ls @ [ls ! i]" by (simp add: take_Suc_conv_app_nth)
  then show ?case using Suc by simp
qed

lemma flat_of_nat:
  "d \<le> length ls \<Longrightarrow>
   (\<Sum>j<d. idx ! j * stride ls j) =
     (of_nat (\<Sum>j<d. unat (idx ! j) * prod_list (map unat (take j ls))) :: size_t)"
  by (simp add: stride_of_nat)

lemma radix_bound:
  "d \<le> length ns \<Longrightarrow> \<forall>j<d. c j < ns ! j \<Longrightarrow>
   (\<Sum>j<d. c j * prod_list (take j ns)) < prod_list (take d (ns :: nat list))"
proof (induction d)
  case 0
  then show ?case by simp
next
  case (Suc d)
  then have IH: "(\<Sum>j<d. c j * prod_list (take j ns)) < prod_list (take d ns)" by simp
  have tk: "take (Suc d) ns = take d ns @ [ns ! d]"
    using Suc.prems by (simp add: take_Suc_conv_app_nth)
  have "c d + 1 \<le> ns ! d" using Suc.prems by (simp add: Suc_leI)
  then have "(c d + 1) * prod_list (take d ns) \<le> ns ! d * prod_list (take d ns)"
    by (rule mult_le_mono1)
  moreover have "(\<Sum>j<Suc d. c j * prod_list (take j ns)) < (c d + 1) * prod_list (take d ns)"
    using IH by simp
  ultimately show ?case by (simp add: tk mult.commute)
qed

lemma slot_in_storage:
  assumes ok: "arr_ok element_size a"
    and len: "length indices = unat (len a)"
    and inb: "\<forall>i < unat (len a). indices ! i < dim_lengths a ! i"
  defines "F \<equiv> (\<Sum>i < unat (len a). unat (indices ! i) * prod_list (map unat (take i (dim_lengths a))))"
  shows "unat ((\<Sum>i < unat (len a). indices ! i * stride (dim_lengths a) i) * element_size) =
           F * unat element_size"
    and "F * unat element_size + unat element_size \<le> length (data a)"
    and "F < prod_list (map unat (dim_lengths a))"
proof -
  let ?d = "unat (len a)" and ?ls = "dim_lengths a" and ?E = "unat element_size"
  let ?P = "prod_list (map unat ?ls)"
  have dl: "length ?ls = ?d" and P64: "?P < 2 ^ 64" and dat: "length (data a) = ?P * ?E"
    using ok by (simp_all add: arr_ok_def)
  have "(\<Sum>j < ?d. unat (indices ! j) * prod_list (take j (map unat ?ls)))
          < prod_list (take ?d (map unat ?ls))"
    using dl inb by (intro radix_bound) (simp_all add: word_less_nat_alt)
  then show FP: "F < ?P" using dl by (simp add: F_def take_map)
  then have "F + 1 \<le> ?P" by simp
  then have "(F + 1) * ?E \<le> ?P * ?E" by (rule mult_le_mono1)
  then show slot: "F * ?E + ?E \<le> length (data a)" using dat by simp
  have "F * ?E \<le> ?P * ?E" using FP by (intro mult_le_mono1) simp
  also have "\<dots> < 2 ^ 64" using ok by (simp add: arr_ok_def)
  finally have "F * ?E < 2 ^ 64" .
  then have "unat (of_nat F * element_size) = F * ?E" by (rule unat_of_nat_mult)
  moreover have "(\<Sum>i < ?d. indices ! i * stride ?ls i) = (of_nat F :: size_t)"
    unfolding F_def using dl by (intro flat_of_nat) simp
  ultimately show "unat ((\<Sum>i < ?d. indices ! i * stride ?ls i) * element_size) = F * ?E"
    by simp
qed

text \<open>
  Claim C8. For every array and every index vector, \<^verbatim>\<open>fclib_arr_access\<close> returns the
  address \<^verbatim>\<open>data_start\<close> plus \<open>(\<Sum>i. indices[i] * stride[i]) * element_size\<close> bytes when
  every \<open>indices[i] < shape[i]\<close>, with \<open>stride[0] = 1\<close> and
  \<open>stride[i] = stride[i - 1] * shape[i - 1]\<close>, and \<^verbatim>\<open>NULL\<close> as soon as one index is out
  of bounds: no address is computed from such an index. The sum is the one the code
  forms in \<^verbatim>\<open>size_t\<close>; on a block that satisfies the array invariant nothing wraps, the
  byte offset is the sum over the natural numbers and the slot lies inside the element
  storage.
\<close>

theorem access_address:
  assumes "length (dim_lengths a) = unat (len a)" and "length indices = unat (len a)"
  shows "fclib_arr_access a element_size indices =
           (if \<forall>i < unat (len a). indices ! i < dim_lengths a ! i
            then Inr (Some ((\<Sum>i < unat (len a). indices ! i * stride (dim_lengths a) i) * element_size))
            else Inr None)
       \<and> (if arr_ok element_size a \<and> (\<forall>i < unat (len a). indices ! i < dim_lengths a ! i)
          then unat ((\<Sum>i < unat (len a). indices ! i * stride (dim_lengths a) i) * element_size) =
                 (\<Sum>i < unat (len a). unat (indices ! i) *
                     prod_list (map unat (take i (dim_lengths a)))) * unat element_size
             \<and> (\<Sum>i < unat (len a). unat (indices ! i) *
                     prod_list (map unat (take i (dim_lengths a)))) * unat element_size
                 + unat element_size \<le> length (data a)
          else True)"
  using assms fclib_arr_access_eq [OF assms] slot_in_storage(1,2) [of element_size a indices]
  by simp

theorem access_address_witness:
  "fclib_arr_access \<lparr>len = 2, dim_lengths = [4, 4], data = map of_nat [0..<16]\<rparr> 1 [1, 2] =
     Inr (Some 9)
   \<and> fclib_arr_access \<lparr>len = 2, dim_lengths = [4, 4], data = map of_nat [0..<16]\<rparr> 1 [4, 2] =
     Inr None
   \<and> unat ((9 :: size_t) * 1) + unat (1 :: size_t) \<le> 16"
proof -
  let ?a = "\<lparr>len = 2, dim_lengths = [4, 4], data = map of_nat [0..<16]\<rparr> :: arr"
  have h: "length (dim_lengths ?a) = unat (len ?a)" by simp
  have i1: "length [1, 2 :: size_t] = unat (len ?a)" by simp
  have i2: "length [4, 2 :: size_t] = unat (len ?a)" by simp
  have b1: "\<forall>i < unat (len ?a). [1, 2 :: size_t] ! i < dim_lengths ?a ! i"
    by (auto simp: less_2_cases_iff)
  have b2: "\<not> (\<forall>i < unat (len ?a). [4, 2 :: size_t] ! i < dim_lengths ?a ! i)"
    by (auto simp: less_2_cases_iff)
  have s: "(\<Sum>i < unat (len ?a). [1, 2 :: size_t] ! i * stride (dim_lengths ?a) i) * 1 = 9"
    by code_simp
  have ok: "arr_ok 1 ?a" by (simp add: arr_ok_def)
  have l: "length (data ?a) = 16" by simp
  from access_address [OF h i1, of 1] b1 ok s l access_address [OF h i2, of 1] b2
  show ?thesis by (simp del: upt_rec_numeral)
qed


text \<open>
  Claim C3. Each of \<^verbatim>\<open>fclib_arr_access\<close>, \<^verbatim>\<open>fclib_arr_access_val\<close>,
  \<^verbatim>\<open>fclib_arr_assign_at\<close> and \<^verbatim>\<open>fclib_arr_assign_val_at\<close> is to report an index out of
  range to its caller as a failure signal and leave the array as it was. On the array of
  shape \<open>[4, 4]\<close> with 1-byte elements and the indices \<open>[4, 2]\<close>, whose first index is
  out of range, \<^verbatim>\<open>fclib_arr_access\<close> does so: it returns \<^verbatim>\<open>NULL\<close>. The three functions
  built on it do not test that result: each passes the \<^verbatim>\<open>NULL\<close> to \<^verbatim>\<open>memcpy\<close> with a
  count of one byte, so none of them returns a failure signal. With indices in range,
  \<open>[1, 2]\<close>, the same three calls return: the value read is 9, and the array comes back
  with 7 in slot 9.
\<close>

theorem out_of_range_index_unreported:
  "fclib_arr_access \<lparr>len = 2, dim_lengths = [4, 4], data = map of_nat [0..<16]\<rparr> 1 [4, 2]
     = Inr None
   \<and> fclib_arr_access_val \<lparr>len = 2, dim_lengths = [4, 4], data = map of_nat [0..<16]\<rparr> 1 [4, 2] 0
     = Inl NullPointer
   \<and> fclib_arr_assign_at \<lparr>len = 2, dim_lengths = [4, 4], data = map of_nat [0..<16]\<rparr> 1 [4, 2] [7]
     = Inl NullPointer
   \<and> fclib_arr_assign_val_at \<lparr>len = 2, dim_lengths = [4, 4], data = map of_nat [0..<16]\<rparr> 1 [4, 2] 7
     = Inl NullPointer
   \<and> fclib_arr_access_val \<lparr>len = 2, dim_lengths = [4, 4], data = map of_nat [0..<16]\<rparr> 1 [1, 2] 0
     = Inr 9
   \<and> fclib_arr_assign_at \<lparr>len = 2, dim_lengths = [4, 4], data = map of_nat [0..<16]\<rparr> 1 [1, 2] [7]
     = Inr \<lparr>len = 2, dim_lengths = [4, 4],
           data = [0, 1, 2, 3, 4, 5, 6, 7, 8, 7, 10, 11, 12, 13, 14, 15]\<rparr>
   \<and> fclib_arr_assign_val_at \<lparr>len = 2, dim_lengths = [4, 4], data = map of_nat [0..<16]\<rparr> 1 [1, 2] 7
     = Inr \<lparr>len = 2, dim_lengths = [4, 4],
           data = [0, 1, 2, 3, 4, 5, 6, 7, 8, 7, 10, 11, 12, 13, 14, 15]\<rparr>"
  by code_simp

section \<open>Assignment and read-back\<close>

lemma byte_low: "ucast (ucast (b::byte) OR push_bit 8 (w::size_t)) = b"
  by (rule bit_word_eqI) (auto simp: bit_simps)

lemma drop_bit_byte_step:
  "drop_bit (8 + n) (ucast (b::byte) OR push_bit 8 (w::size_t)) = drop_bit n (take_bit 56 w)"
  by (rule bit_word_eqI) (auto simp: bit_simps dest: bit_imp_le_length)

lemma byte_of_take_bit:
  "n \<le> 48 \<Longrightarrow> (ucast (drop_bit n (take_bit 56 (w::size_t))) :: byte) = ucast (drop_bit n w)"
  by (rule bit_word_eqI) (auto simp: bit_simps dest: bit_imp_le_length)

lemma byte_of_bytes_size_t:
  "k < length bs \<Longrightarrow> length bs \<le> 8 \<Longrightarrow> ucast (drop_bit (8 * k) (bytes_size_t bs)) = bs ! k"
proof (induction bs arbitrary: k)
  case Nil
  then show ?case by simp
next
  case (Cons b bs)
  show ?case
  proof (cases k)
    case 0
    then show ?thesis by (simp add: byte_low)
  next
    case (Suc j)
    have j: "j < length bs" "length bs \<le> 8" "8 * j \<le> 48" using Cons.prems Suc by simp_all
    have "8 * k = 8 + 8 * j" using Suc by simp
    then have "(ucast (drop_bit (8 * k) (bytes_size_t (b # bs))) :: byte) =
        ucast (drop_bit (8 * j) (take_bit 56 (bytes_size_t bs)))"
      by (simp only: bytes_size_t.simps drop_bit_byte_step)
    also have "\<dots> = ucast (drop_bit (8 * j) (bytes_size_t bs))"
      using j(3) by (rule byte_of_take_bit)
    also have "\<dots> = bs ! j" using j by (intro Cons.IH)
    finally show ?thesis using Suc by simp
  qed
qed

lemma length_size_t_bytes [simp]: "length (size_t_bytes w) = 8"
  by (simp add: size_t_bytes_def)

lemma size_t_bytes_bytes_size_t: "length bs = 8 \<Longrightarrow> size_t_bytes (bytes_size_t bs) = bs"
  by (rule nth_equalityI) (simp_all add: size_t_bytes_def byte_of_bytes_size_t)


text \<open>
  With \<^verbatim>\<open>element_size = 16\<close> the assignment succeeds, and the read-back copies 16 bytes
  into the 8-byte local \<^verbatim>\<open>value\<close> of \<^verbatim>\<open>fclib_arr_access_val\<close>: no value is returned.
\<close>

theorem read_back_16_bytes_overruns:
  "fclib_arr_assign_at \<lparr>len = 1, dim_lengths = [1], data = replicate 16 0\<rparr> 16 [0]
       [1, 2, 3, 4, 5, 6, 7, 8, 9, 10, 11, 12, 13, 14, 15, 16]
     = Inr \<lparr>len = 1, dim_lengths = [1],
            data = [1, 2, 3, 4, 5, 6, 7, 8, 9, 10, 11, 12, 13, 14, 15, 16]\<rparr>
   \<and> fclib_arr_access_val \<lparr>len = 1, dim_lengths = [1],
            data = [1, 2, 3, 4, 5, 6, 7, 8, 9, 10, 11, 12, 13, 14, 15, 16]\<rparr> 16 [0] 0
     = Inl OutOfBounds"
  by code_simp

text \<open>
  Claim C7, as amended. For every array that satisfies the array invariant, every
  \<^verbatim>\<open>element_size\<close> of at most 8 bytes (the size of the container
  \<^verbatim>\<open>fclib_arr_access_val\<close> returns), every in-bounds index vector and every value \<open>val\<close>
  of \<^verbatim>\<open>element_size\<close> bytes: \<^verbatim>\<open>fclib_arr_assign_at\<close> succeeds, and
  \<^verbatim>\<open>fclib_arr_access_val\<close> on the array it leaves returns a container whose first
  \<^verbatim>\<open>element_size\<close> bytes are \<open>val\<close>; its other bytes are those of the uninitialised
  local. With \<^verbatim>\<open>element_size = 8\<close> the container is \<open>val\<close>.
\<close>

theorem assign_then_access_val:
  assumes ok: "arr_ok element_size a"
    and len: "length indices = unat (len a)"
    and inb: "\<forall>i < unat (len a). indices ! i < dim_lengths a ! i"
    and small: "unat element_size \<le> 8"
    and val: "unat element_size \<le> length val"
  shows "\<exists>a'. fclib_arr_assign_at a element_size indices val = Inr a'
          \<and> arr_ok element_size a'
          \<and> (\<exists>r. fclib_arr_access_val a' element_size indices uninit = Inr r
                \<and> size_t_bytes r =
                    take (unat element_size) val @ drop (unat element_size) (size_t_bytes uninit))"
proof -
  let ?E = "unat element_size"
  define element where
    "element = (\<Sum>i < unat (len a). indices ! i * stride (dim_lengths a) i) * element_size"
  define off where "off = unat element"
  define data' where "data' = take off (data a) @ take ?E val @ drop (off + ?E) (data a)"
  define a' where "a' = a\<lparr>data := data'\<rparr>"
  have dl: "length (dim_lengths a) = unat (len a)" using ok by (simp add: arr_ok_def)
  have acc: "fclib_arr_access a element_size indices = Inr (Some element)"
    using fclib_arr_access_eq [OF dl len] inb by (simp add: element_def)
  have slot: "off + ?E \<le> length (data a)"
    using slot_in_storage(1,2) [OF ok len inb] by (simp add: off_def element_def)
  have len': "length data' = length (data a)"
    unfolding data'_def using slot val by simp
  have asg: "fclib_arr_assign_at a element_size indices val = Inr a'"
    using slot val by (simp add: fclib_arr_assign_at_def acc memcpy_def off_def a'_def data'_def)
  have ok': "arr_ok element_size a'"
    using ok len' by (simp add: arr_ok_def a'_def)
  have acc': "fclib_arr_access a' element_size indices = Inr (Some element)"
    using fclib_arr_access_eq [of a' indices element_size] dl len inb
    by (simp add: a'_def element_def)
  have rd: "take ?E (drop off data') = take ?E val"
  proof -
    have "length (take off (data a)) = off" using slot by simp
    then have "drop off data' = take ?E val @ drop (off + ?E) (data a)"
      unfolding data'_def by (metis append_eq_conv_conj)
    then show ?thesis using val by simp
  qed
  define bs where "bs = take ?E val @ drop ?E (size_t_bytes uninit)"
  have bl: "length bs = 8" using small val by (simp add: bs_def)
  have da': "data a' = data'" by (simp add: a'_def)
  have "memcpy (size_t_bytes uninit) 0 data' off ?E = Inr bs"
    using slot small len' rd by (simp add: memcpy_def bs_def)
  then have "fclib_arr_access_val a' element_size indices uninit = Inr (bytes_size_t bs)"
    by (simp add: fclib_arr_access_val_def acc' off_def [symmetric] da')
  moreover have "size_t_bytes (bytes_size_t bs) = bs" using bl by (rule size_t_bytes_bytes_size_t)
  ultimately show ?thesis using asg ok' by (auto simp: bs_def)
qed

theorem assign_then_access_val_witness:
  "\<exists>a'. fclib_arr_assign_at \<lparr>len = 2, dim_lengths = [2, 2], data = replicate 16 0\<rparr> 4 [1, 1]
            [7, 0, 0, 0] = Inr a'
     \<and> (\<exists>r. fclib_arr_access_val a' 4 [1, 1] 0xFFFFFFFFFFFFFFFF = Inr r
           \<and> size_t_bytes r = [7, 0, 0, 0, 255, 255, 255, 255])"
proof -
  let ?a = "\<lparr>len = 2, dim_lengths = [2, 2], data = replicate 16 0\<rparr> :: arr"
  have ok: "arr_ok 4 ?a" by (simp add: arr_ok_def)
  have l: "length [1, 1 :: size_t] = unat (len ?a)" by simp
  have inb: "\<forall>i < unat (len ?a). [1, 1 :: size_t] ! i < dim_lengths ?a ! i"
    by (auto simp: less_2_cases_iff)
  have s: "unat (4 :: size_t) \<le> 8" by simp
  have v: "unat (4 :: size_t) \<le> length [7, 0, 0, 0 :: byte]" by simp
  have e: "take (unat (4 :: size_t)) [7, 0, 0, 0 :: byte] @
             drop (unat (4 :: size_t)) (size_t_bytes 0xFFFFFFFFFFFFFFFF) =
           [7, 0, 0, 0, 255, 255, 255, 255]"
    by code_simp
  from assign_then_access_val [OF ok l inb s v, of "0xFFFFFFFFFFFFFFFF"]
  show ?thesis by (simp only: e) blast
qed

section \<open>Constructor\<close>

lemma prod_list_of_nat: "prod_list ws = (of_nat (prod_list (map unat ws)) :: size_t)"
  by (induction ws) simp_all

lemma fclib_arr_create_ok:
  assumes l: "length lengths = unat dimensionality"
    and sz: "8 + unat dimensionality * 8 + prod_list (map unat lengths) * unat element_size < 2 ^ 64"
  shows "fclib_arr_create dimensionality element_size lengths fresh =
           Inr \<lparr>len = dimensionality, dim_lengths = lengths,
                data = map fresh [0 ..< prod_list (map unat lengths) * unat element_size]\<rparr>"
proof -
  let ?P = "prod_list (map unat lengths)" and ?E = "unat element_size" and ?d = "unat dimensionality"
  have m: "mul_lengths lengths ?d 0 1 = Inr (prod_list lengths)"
    using mul_lengths_prod [of 0 ?d lengths 1] l by simp
  have "8 + dimensionality * 8 + prod_list lengths * element_size =
          (of_nat (8 + ?d * 8 + ?P * ?E) :: size_t)"
    by (simp add: prod_list_of_nat [of lengths])
  then have n: "unat (8 + dimensionality * 8 + prod_list lengths * element_size) = 8 + ?d * 8 + ?P * ?E"
    using sz by (simp only: unat_of_nat) simp
  show ?thesis
    unfolding fclib_arr_create_def m using l by (simp add: n Let_def)
qed

lemma fclib_arr_create_arr_ok:
  assumes "length lengths = unat dimensionality"
    and "prod_list (map unat lengths) < 2 ^ 64"
    and "8 + unat dimensionality * 8 + prod_list (map unat lengths) * unat element_size < 2 ^ 64"
  shows "\<exists>a. fclib_arr_create dimensionality element_size lengths fresh = Inr a \<and> arr_ok element_size a"
  using fclib_arr_create_ok [OF assms(1,3)] assms by (simp add: arr_ok_def)


section \<open>One-dimensional slice\<close>

lemma value_after_first_word_1d:
  "length (dim_lengths a) = 1 \<Longrightarrow> value_after_first_word a = data a"
  by (simp add: value_after_first_word_def)

lemma slice_1d_copy:
  assumes ok: "arr_ok element_size src" and one: "len src = 1"
    and lt: "real_from < real_to" and le: "real_to \<le> dim_lengths src ! 0"
  shows "(case fclib_arr_create 1 element_size [real_to - real_from] fresh of
            Inl e \<Rightarrow> Inl e
          | Inr sl \<Rightarrow>
              (case memcpy (data sl) 0 (data src) (unat (real_from * element_size))
                      (unat ((real_to - real_from) * element_size)) of
                 Inl e \<Rightarrow> Inl e
               | Inr dest \<Rightarrow> Inr (sl\<lparr>data := dest\<rparr>))) =
         Inr \<lparr>len = 1, dim_lengths = [real_to - real_from],
              data = take (unat (real_to - real_from) * unat element_size)
                       (drop (unat real_from * unat element_size) (data src))\<rparr>"
proof -
  let ?E = "unat element_size" and ?L = "unat (dim_lengths src ! 0)"
  let ?n = "unat (real_to - real_from)"
  have dl: "length (dim_lengths src) = 1" using ok one by (simp add: arr_ok_def)
  then have dims: "dim_lengths src = [dim_lengths src ! 0]"
    by (cases "dim_lengths src") simp_all
  have P: "prod_list (map unat (dim_lengths src)) = ?L" by (subst dims) simp
  have dat: "length (data src) = ?L * ?E" and sz: "16 + ?L * ?E < 2 ^ 64"
    using ok one P by (simp_all add: arr_ok_def)
  have f: "unat real_from < unat real_to" using lt by (simp add: word_less_nat_alt)
  have t: "unat real_to \<le> ?L" using le by (simp add: word_le_nat_alt)
  have n: "?n = unat real_to - unat real_from" using lt by (simp add: unat_sub)
  have nL: "?n \<le> ?L" using n t by simp
  have nE: "?n * ?E \<le> ?L * ?E" using nL by (rule mult_le_mono1)
  have fE: "unat real_from * ?E \<le> ?L * ?E" using f t by (intro mult_le_mono1) simp
  have LE64: "?L * ?E < 2 ^ 64" using sz by simp
  have o1: "unat (real_from * element_size) = unat real_from * ?E"
    using le_less_trans [OF fE LE64] by (rule unat_mult_small)
  have o2: "unat ((real_to - real_from) * element_size) = ?n * ?E"
    using le_less_trans [OF nE LE64] by (rule unat_mult_small)
  have cr: "fclib_arr_create 1 element_size [real_to - real_from] fresh =
      Inr \<lparr>len = 1, dim_lengths = [real_to - real_from], data = map fresh [0 ..< ?n * ?E]\<rparr>"
  proof -
    have l1: "length [real_to - real_from] = unat (1 :: size_t)" by simp
    have "?L * ?E < 2 ^ 64 - 16" using sz by simp
    with nE have "?n * ?E < 2 ^ 64 - 16" by (rule le_less_trans)
    then have s1: "8 + unat (1 :: size_t) * 8 + prod_list (map unat [real_to - real_from]) * ?E
        < 2 ^ 64" by simp
    show ?thesis using fclib_arr_create_ok [OF l1 s1, of fresh] by simp
  qed
  have "unat real_from * ?E + ?n * ?E = unat real_to * ?E"
    using n f by (simp add: add_mult_distrib [symmetric])
  also have "\<dots> \<le> ?L * ?E" using t by (rule mult_le_mono1)
  finally have src_ok: "unat real_from * ?E + ?n * ?E \<le> length (data src)" using dat by simp
  show ?thesis
    unfolding cr using src_ok by (simp add: o1 o2 memcpy_def)
qed

text \<open>
  Claim C4. For every one-dimensional source of length \<open>L\<close> that satisfies the array
  invariant and every \<open>(from, to)\<close>: \<^verbatim>\<open>fclib_arr_get_slice_1d\<close> replaces \<open>to = 0\<close> by \<open>L\<close>
  and clamps \<open>to > L\<close> to \<open>L\<close>; it ends the process exactly when \<open>from\<close> equals the
  clamped \<open>to\<close>, or exceeds it while it is 0; otherwise it clamps a \<open>from\<close> above the
  clamped \<open>to\<close> to one below it and returns a new one-dimensional array of length
  (clamped \<open>to\<close>) - (clamped \<open>from\<close>) whose element storage is the bytes of the source
  elements from the clamped \<open>from\<close> up to the clamped \<open>to\<close>, whatever the new block held
  before.
\<close>

theorem slice_1d_policy:
  assumes "arr_ok element_size src" and "len src = 1"
  shows "fclib_arr_get_slice_1d src element_size from to fresh =
           (let L = dim_lengths src ! 0;
                to0 = (if to = 0 then L else to);
                clamped_to = (if to0 > L then L else to0)
            in if from = clamped_to \<or> (from > clamped_to \<and> clamped_to = 0) then Inl Aborted
               else
                 (let clamped_from = (if from > clamped_to then clamped_to - 1 else from)
                  in Inr \<lparr>len = 1, dim_lengths = [clamped_to - clamped_from],
                          data = take (unat (clamped_to - clamped_from) * unat element_size)
                                   (drop (unat clamped_from * unat element_size) (data src))\<rparr>))"
proof -
  define L where "L = dim_lengths src ! 0"
  define to0 where "to0 = (if to = 0 then L else to)"
  define clamped_to where "clamped_to = (if to0 > L then L else to0)"
  define clamped_from where "clamped_from = (if from > clamped_to then clamped_to - 1 else from)"
  note defs = clamped_from_def clamped_to_def to0_def L_def
  have dl: "length (dim_lengths src) = 1" using assms by (simp add: arr_ok_def)
  have r: "rd (dim_lengths src) 0 = Inr (dim_lengths src ! 0)" using dl by simp
  have le: "clamped_to \<le> L" by (simp add: clamped_to_def not_less)
  have lhs: "fclib_arr_get_slice_1d src element_size from to fresh =
      (if from = clamped_to \<or> (from > clamped_to \<and> clamped_to = 0) then Inl Aborted
       else
        (case fclib_arr_create 1 element_size [clamped_to - clamped_from] fresh of
            Inl e \<Rightarrow> Inl e
          | Inr sl \<Rightarrow>
              (case memcpy (data sl) 0 (data src) (unat (clamped_from * element_size))
                      (unat ((clamped_to - clamped_from) * element_size)) of
                 Inl e \<Rightarrow> Inl e
               | Inr dest \<Rightarrow> Inr (sl\<lparr>data := dest\<rparr>))))"
    unfolding fclib_arr_get_slice_1d_def r value_after_first_word_1d [OF dl] defs
    by (auto simp: Let_def word_gt_0)
  have rhs: "(let L = dim_lengths src ! 0;
                to0 = (if to = 0 then L else to);
                clamped_to = (if to0 > L then L else to0)
            in if from = clamped_to \<or> (from > clamped_to \<and> clamped_to = 0) then Inl Aborted
               else
                 (let clamped_from = (if from > clamped_to then clamped_to - 1 else from)
                  in Inr \<lparr>len = 1, dim_lengths = [clamped_to - clamped_from],
                          data = take (unat (clamped_to - clamped_from) * unat element_size)
                                   (drop (unat clamped_from * unat element_size) (data src))\<rparr>)) =
      (if from = clamped_to \<or> (from > clamped_to \<and> clamped_to = 0) then Inl Aborted
       else Inr \<lparr>len = 1, dim_lengths = [clamped_to - clamped_from],
                          data = take (unat (clamped_to - clamped_from) * unat element_size)
                                   (drop (unat clamped_from * unat element_size) (data src))\<rparr>)"
    unfolding defs by (auto simp: Let_def word_gt_0)
  show ?thesis
  proof (cases "from = clamped_to \<or> (from > clamped_to \<and> clamped_to = 0)")
    case True
    then show ?thesis unfolding lhs rhs by simp
  next
    case False
    have lt: "clamped_from < clamped_to"
    proof (cases "from > clamped_to")
      case True
      then have "clamped_to \<noteq> 0" using False by simp
      then show ?thesis
        using True by (simp add: clamped_from_def word_less_nat_alt unat_minus_one unat_gt_0)
    next
      case nt: False
      then show ?thesis using False by (simp add: clamped_from_def)
    qed
    have "(case fclib_arr_create 1 element_size [clamped_to - clamped_from] fresh of
            Inl e \<Rightarrow> Inl e
          | Inr sl \<Rightarrow>
              (case memcpy (data sl) 0 (data src) (unat (clamped_from * element_size))
                      (unat ((clamped_to - clamped_from) * element_size)) of
                 Inl e \<Rightarrow> Inl e
               | Inr dest \<Rightarrow> Inr (sl\<lparr>data := dest\<rparr>))) =
          Inr \<lparr>len = 1, dim_lengths = [clamped_to - clamped_from],
              data = take (unat (clamped_to - clamped_from) * unat element_size)
                       (drop (unat clamped_from * unat element_size) (data src))\<rparr>"
      using assms lt le unfolding L_def by (rule slice_1d_copy)
    then show ?thesis unfolding lhs rhs if_not_P [OF False] .
  qed
qed

theorem slice_1d_policy_witness:
  "fclib_arr_get_slice_1d \<lparr>len = 1, dim_lengths = [10], data = [0, 1, 2, 3, 4, 5, 6, 7, 8, 9]\<rparr> 1 2 6 (\<lambda>_. 0)
     = Inr \<lparr>len = 1, dim_lengths = [4], data = [2, 3, 4, 5]\<rparr>
   \<and> fclib_arr_get_slice_1d \<lparr>len = 1, dim_lengths = [10], data = [0, 1, 2, 3, 4, 5, 6, 7, 8, 9]\<rparr> 1 3 3 (\<lambda>_. 0)
     = Inl Aborted
   \<and> fclib_arr_get_slice_1d \<lparr>len = 1, dim_lengths = [10], data = [0, 1, 2, 3, 4, 5, 6, 7, 8, 9]\<rparr> 1 7 0 (\<lambda>_. 0)
     = Inr \<lparr>len = 1, dim_lengths = [3], data = [7, 8, 9]\<rparr>
   \<and> fclib_arr_get_slice_1d \<lparr>len = 1, dim_lengths = [10], data = [0, 1, 2, 3, 4, 5, 6, 7, 8, 9]\<rparr> 1 5 3 (\<lambda>_. 0)
     = Inr \<lparr>len = 1, dim_lengths = [1], data = [2]\<rparr>"
proof -
  let ?a = "\<lparr>len = 1, dim_lengths = [10], data = [0, 1, 2, 3, 4, 5, 6, 7, 8, 9]\<rparr> :: arr"
  have ok: "arr_ok 1 ?a" by (simp add: arr_ok_def)
  have one: "len ?a = 1" by simp
  show ?thesis
    using slice_1d_policy [OF ok one, of 2 6 "\<lambda>_. 0"] slice_1d_policy [OF ok one, of 3 3 "\<lambda>_. 0"]
      slice_1d_policy [OF ok one, of 7 0 "\<lambda>_. 0"] slice_1d_policy [OF ok one, of 5 3 "\<lambda>_. 0"]
    by (simp add: Let_def)
qed

section \<open>General slice on concrete arrays\<close>

text \<open>
  Claim C9. There are inputs of \<^verbatim>\<open>fclib_arr_get_slice\<close> with a reversed pair
  \<open>from > to\<close>, \<open>to \<le> shape[i]\<close> and every other axis valid that the validation does not
  reject: on shape \<open>[4, 4]\<close> the ranges \<open>[3, 1, 0, 0]\<close> pass, because \<open>to - from\<close> wraps to
  \<open>2 ^ 64 - 2\<close>, which is not below 2. No failure is reported, and the wrapped difference
  is the axis length the result is constructed with: with 1-byte elements the size of the
  request wraps below the size of the header and the shape, with 0-byte elements the array
  is returned with that length.
\<close>

theorem reversed_range_not_rejected:
  "validate_ranges [4, 4] [3, 1, 0, 0] 2 0 0 = Inr (Some 1)
   \<and> new_lengths_loop [3, 1, 0, 0] 2 0 [] = Inr [0xFFFFFFFFFFFFFFFE]
   \<and> (1 - 3 :: size_t) = 0xFFFFFFFFFFFFFFFE
   \<and> fclib_arr_get_slice
        \<lparr>len = 2, dim_lengths = [4, 4], data = [0, 1, 2, 3, 4, 5, 6, 7, 8, 9, 10, 11, 12, 13, 14, 15]\<rparr>
        1 [3, 1, 0, 0] (\<lambda>_. 0) = Inl OutOfBounds
   \<and> fclib_arr_get_slice \<lparr>len = 2, dim_lengths = [4, 4], data = []\<rparr> 0 [3, 1, 0, 0] (\<lambda>_. 0)
       = Inr (Some \<lparr>len = 1, dim_lengths = [0xFFFFFFFFFFFFFFFE], data = []\<rparr>)"
proof -
  have 1: "validate_ranges [4, 4] [3, 1, 0, 0] 2 0 0 = Inr (Some 1)"
    by code_simp
  have 2: "new_lengths_loop [3, 1, 0, 0] 2 0 [] = Inr [0xFFFFFFFFFFFFFFFE]"
    by code_simp
  have 3: "(1 - 3 :: size_t) = 0xFFFFFFFFFFFFFFFE"
    by simp
  have 4: "fclib_arr_get_slice
        \<lparr>len = 2, dim_lengths = [4, 4], data = [0, 1, 2, 3, 4, 5, 6, 7, 8, 9, 10, 11, 12, 13, 14, 15]\<rparr>
        1 [3, 1, 0, 0] (\<lambda>_. 0) = Inl OutOfBounds"
    by code_simp
  have 5: "fclib_arr_get_slice \<lparr>len = 2, dim_lengths = [4, 4], data = []\<rparr> 0 [3, 1, 0, 0] (\<lambda>_. 0)
       = Inr (Some \<lparr>len = 1, dim_lengths = [0xFFFFFFFFFFFFFFFE], data = []\<rparr>)"
    by code_simp
  from 1 2 3 4 5 show ?thesis by (intro conjI)
qed

text \<open>
  Scenario D of the specification: on shape \<open>[4, 4]\<close> the ranges \<open>[0, 4, 1, 2]\<close> are rejected,
  since the pair \<open>(1, 2)\<close> is a range of one element.
\<close>

theorem slice_scenario_D_rejected:
  "fclib_arr_get_slice
     \<lparr>len = 2, dim_lengths = [4, 4], data = [0, 1, 2, 3, 4, 5, 6, 7, 8, 9, 10, 11, 12, 13, 14, 15]\<rparr>
     1 [0, 4, 1, 2] (\<lambda>_. 0) = Inr None"
  by code_simp

text \<open>
  Scenario B of the specification holds: on shape \<open>[4, 4]\<close> the ranges \<open>[1, 3, 2, 2]\<close> give
  the elements at (1, 2) and (2, 2), in that order.
\<close>

lemma slice_scenario_B:
  "fclib_arr_get_slice
     \<lparr>len = 2, dim_lengths = [4, 4], data = [0, 1, 2, 3, 4, 5, 6, 7, 8, 9, 10, 11, 12, 13, 14, 15]\<rparr>
     1 [1, 3, 2, 2] (\<lambda>_. 0) = Inr (Some \<lparr>len = 1, dim_lengths = [2], data = [9, 10]\<rparr>)
   \<and> fclib_arr_access
     \<lparr>len = 2, dim_lengths = [4, 4], data = [0, 1, 2, 3, 4, 5, 6, 7, 8, 9, 10, 11, 12, 13, 14, 15]\<rparr>
     1 [1, 2] = Inr (Some 9)
   \<and> fclib_arr_access
     \<lparr>len = 2, dim_lengths = [4, 4], data = [0, 1, 2, 3, 4, 5, 6, 7, 8, 9, 10, 11, 12, 13, 14, 15]\<rparr>
     1 [2, 2] = Inr (Some 10)"
  by code_simp

text \<open>
  Claim C5 at a three-dimensional source. On shape \<open>[2, 2, 2]\<close> with the element at
  \<open>(i, j, k)\<close> holding \<open>i + 2 * j + 4 * k\<close>, the ranges \<open>[1, 1, 0, 2, 0, 2]\<close> fix axis 0 at 1.
  The result has one dimension less and holds the four elements of that hyperplane, but
  not at their places: the index increment steps the last axis first, while the result
  is laid out with its first axis fastest. The result element at \<open>(1, 0)\<close> is the source
  element at \<open>(1, 0, 1)\<close>, not the one at \<open>(1, 1, 0)\<close>.
\<close>

theorem slice_fixed_axis_0_transposed:
  "fclib_arr_get_slice \<lparr>len = 3, dim_lengths = [2, 2, 2], data = [0, 1, 2, 3, 4, 5, 6, 7]\<rparr>
     1 [1, 1, 0, 2, 0, 2] (\<lambda>_. 0) = Inr (Some \<lparr>len = 2, dim_lengths = [2, 2], data = [1, 5, 3, 7]\<rparr>)
   \<and> fclib_arr_access_val \<lparr>len = 2, dim_lengths = [2, 2], data = [1, 5, 3, 7]\<rparr> 1 [1, 0] 0 = Inr 5
   \<and> fclib_arr_access_val \<lparr>len = 3, dim_lengths = [2, 2, 2], data = [0, 1, 2, 3, 4, 5, 6, 7]\<rparr>
       1 [1, 1, 0] 0 = Inr 3
   \<and> fclib_arr_access_val \<lparr>len = 3, dim_lengths = [2, 2, 2], data = [0, 1, 2, 3, 4, 5, 6, 7]\<rparr>
       1 [1, 0, 1] 0 = Inr 5"
  by code_simp



text \<open>
  Claim C2, as amended. On every source of shape \<open>[4, 4]\<close> that satisfies the array
  invariant, \<^verbatim>\<open>fclib_arr_get_slice\<close> with ranges \<open>[0, 4, 1, 2]\<close> reports failure: the pair
  \<open>(1, 2)\<close> is a range of one element. The column at index 1 is selected by fixing axis 1,
  with ranges \<open>[0, 4, 1, 1]\<close>: that call succeeds and produces a one-dimensional array of
  length 4 whose element storage is that of the source elements \<open>(0, 1)\<close>, \<open>(1, 1)\<close>,
  \<open>(2, 1)\<close>, \<open>(3, 1)\<close>, which lie at the element offsets 4 to 7.
\<close>

theorem slice_column_1:
  assumes ok: "arr_ok element_size src" and shape: "dim_lengths src = [4, 4]"
  shows "fclib_arr_get_slice src element_size [0, 4, 1, 2] fresh = Inr None
       \<and> fclib_arr_get_slice src element_size [0, 4, 1, 1] fresh =
           Inr (Some \<lparr>len = 1, dim_lengths = [4],
                      data = take (4 * unat element_size)
                               (drop (4 * unat element_size) (data src))\<rparr>)"
proof -
  let ?E = "unat element_size"
  have ul: "unat (len src) = 2" using ok shape by (simp add: arr_ok_def)
  then have l2: "len src = 2" by (metis of_nat_numeral of_nat_unat ucast_id)
  have dat: "length (data src) = 16 * ?E" and sz: "16 * ?E < 2 ^ 64 - 24"
    using ok shape ul by (simp_all add: arr_ok_def)
  have v1: "validate_ranges [4, 4] [0, 4, 1, 2] 2 0 0 = Inr None"
    by code_simp
  have v2: "validate_ranges [4, 4] [0, 4, 1, 1] 2 0 0 = Inr (Some 1)"
    by code_simp
  have nl: "new_lengths_loop [0, 4, 1, 1] 2 0 [] = Inr [4]"
    by code_simp
  have st: "strides_loop [4, 4] 2 (Suc 0) [1] = Inr [1, 4]"
    by code_simp
  have mlen: "mul_lengths [4] (Suc 0) 0 1 = Inr 4"
    by code_simp
  have ii: "init_indices_loop [0, 4, 1, 1] 2 0 [] = Inr [0, 1]"
    by code_simp
  have so: "src_offset_loop [0, 1] [1, 4] 2 0 0 = Inr 4"
    by code_simp
  have cr: "fclib_arr_create 1 element_size [4] fresh =
      Inr \<lparr>len = 1, dim_lengths = [4], data = map fresh [0 ..< 4 * ?E]\<rparr>"
  proof -
    have l1: "length [4 :: size_t] = unat (1 :: size_t)" by simp
    have s1: "8 + unat (1 :: size_t) * 8 + prod_list (map unat [4 :: size_t]) * ?E < 2 ^ 64"
      using sz by simp
    show ?thesis using fclib_arr_create_ok [OF l1 s1, of fresh] by simp
  qed
  have o4: "unat (4 * element_size) = 4 * ?E"
  proof -
    have "unat (4 :: size_t) * unat element_size < 2 ^ 64" using sz by simp
    then show ?thesis using unat_mult_small [of 4 element_size] by simp
  qed
  have cc: "copy_chunks (data src) element_size [0, 4, 1, 1] [1, 4] 2 True 4 (unat (1 :: size_t)) 0
              [0, 1] 0 (map fresh [0 ..< 4 * ?E]) =
            Inr (take (4 * ?E) (drop (4 * ?E) (data src)))"
    using dat
    by (simp add: copy_chunks.simps [of _ _ _ _ _ _ _ _ 0] copy_chunks.simps [of _ _ _ _ _ _ _ _ "Suc 0"]
        so o4 memcpy_def)
  have "fclib_arr_get_slice src element_size [0, 4, 1, 2] fresh = Inr None"
    by (simp add: fclib_arr_get_slice_def ul shape v1)
  moreover have "fclib_arr_get_slice src element_size [0, 4, 1, 1] fresh =
           Inr (Some \<lparr>len = 1, dim_lengths = [4],
                      data = take (4 * ?E) (drop (4 * ?E) (data src))\<rparr>)"
    using cc by (simp add: fclib_arr_get_slice_def ul l2 shape v2 nl st mlen ii cr rd_def Let_def)
  ultimately show ?thesis by simp
qed

theorem slice_column_1_witness:
  "fclib_arr_get_slice
     \<lparr>len = 2, dim_lengths = [4, 4], data = [0, 1, 2, 3, 4, 5, 6, 7, 8, 9, 10, 11, 12, 13, 14, 15]\<rparr>
     1 [0, 4, 1, 1] (\<lambda>_. 0) = Inr (Some \<lparr>len = 1, dim_lengths = [4], data = [4, 5, 6, 7]\<rparr>)"
proof -
  let ?a = "\<lparr>len = 2, dim_lengths = [4, 4],
             data = [0, 1, 2, 3, 4, 5, 6, 7, 8, 9, 10, 11, 12, 13, 14, 15]\<rparr> :: arr"
  have ok: "arr_ok 1 ?a" by (simp add: arr_ok_def)
  have sh: "dim_lengths ?a = [4, 4]" by simp
  show ?thesis using slice_column_1 [OF ok sh, of "\<lambda>_. 0"] by simp
qed

section \<open>The loops of the general slicer\<close>

lemma rd_ranges:
  assumes "d * 2 \<le> length ranges" "i < d"
  shows "rd ranges (i * 2) = Inr (range_from ranges i)"
    and "rd ranges (i * 2 + 1) = Inr (range_to ranges i)"
    and "rd ranges (Suc (i * 2)) = Inr (range_to ranges i)"
  using assms by (simp_all add: rd_def range_from_def range_to_def)

lemma validate_ranges_eq:
  assumes "i \<le> d" "d \<le> length shape" "d * 2 \<le> length ranges"
  shows "validate_ranges shape ranges d i acc =
           (if list_all (axis_ok shape ranges) [i ..< d]
            then Inr (Some (acc + of_nat (length (filter (is_range ranges) [i ..< d]))))
            else Inr None)"
  using assms
proof (induction "d - i" arbitrary: i acc)
  case 0
  then have "i = d" by simp
  then show ?case by (subst validate_ranges.simps) simp
next
  case (Suc k)
  then have lt: "i < d" by simp
  have up: "[i ..< d] = i # [Suc i ..< d]" using lt by (simp add: upt_conv_Cons)
  note r = rd_ranges [OF Suc.prems(3) lt]
  have s: "rd shape i = Inr (shape ! i)" using lt Suc.prems by simp
  have IH: "validate_ranges shape ranges d (Suc i) acc' =
           (if list_all (axis_ok shape ranges) [Suc i ..< d]
            then Inr (Some (acc' + of_nat (length (filter (is_range ranges) [Suc i ..< d]))))
            else Inr None)" for acc'
    using Suc.hyps(2) lt Suc.prems by (intro Suc.hyps(1)) simp_all
  show ?case
  proof (cases "axis_ok shape ranges i")
    case False
    then have "validate_ranges shape ranges d i acc = Inr None"
      using lt
      by (subst validate_ranges.simps)
        (auto simp: r s axis_ok_def is_range_def not_le not_less)
    then show ?thesis using False by (simp add: up)
  next
    case True
    then have "validate_ranges shape ranges d i acc =
        validate_ranges shape ranges d (Suc i) (if is_range ranges i then acc + 1 else acc)"
      using lt
      by (subst validate_ranges.simps)
        (auto simp: r s axis_ok_def is_range_def not_le not_less)
    then show ?thesis using True unfolding IH by (simp add: up)
  qed
qed

lemma new_lengths_loop_eq:
  assumes "i \<le> d" "d * 2 \<le> length ranges"
  shows "new_lengths_loop ranges d i acc =
           Inr (acc @ map (\<lambda>j. range_to ranges j - range_from ranges j)
                        (filter (is_range ranges) [i ..< d]))"
  using assms
proof (induction "d - i" arbitrary: i acc)
  case 0
  then have "i = d" by simp
  then show ?case by (subst new_lengths_loop.simps) simp
next
  case (Suc k)
  then have lt: "i < d" by simp
  have up: "[i ..< d] = i # [Suc i ..< d]" using lt by (simp add: upt_conv_Cons)
  note r = rd_ranges [OF Suc.prems(2) lt]
  have IH: "new_lengths_loop ranges d (Suc i) acc' =
           Inr (acc' @ map (\<lambda>j. range_to ranges j - range_from ranges j)
                        (filter (is_range ranges) [Suc i ..< d]))" for acc'
    using Suc.hyps(2) lt Suc.prems by (intro Suc.hyps(1)) simp_all
  show ?case
    using lt by (subst new_lengths_loop.simps) (simp add: r IH up is_range_def)
qed

lemma init_indices_loop_eq:
  assumes "i \<le> d" "d * 2 \<le> length ranges"
  shows "init_indices_loop ranges d i acc = Inr (acc @ map (range_from ranges) [i ..< d])"
  using assms
proof (induction "d - i" arbitrary: i acc)
  case 0
  then have "i = d" by simp
  then show ?case by (subst init_indices_loop.simps) simp
next
  case (Suc k)
  then have lt: "i < d" by simp
  have up: "[i ..< d] = i # [Suc i ..< d]" using lt by (simp add: upt_conv_Cons)
  note r = rd_ranges [OF Suc.prems(2) lt]
  have IH: "init_indices_loop ranges d (Suc i) acc' =
      Inr (acc' @ map (range_from ranges) [Suc i ..< d])" for acc'
    using Suc.hyps(2) lt Suc.prems by (intro Suc.hyps(1)) simp_all
  show ?case
    using lt by (subst init_indices_loop.simps) (simp add: r IH up)
qed

lemma strides_loop_eq:
  assumes "1 \<le> i" "i \<le> d" "d \<le> length shape"
  shows "strides_loop shape d i (map (stride shape) [0 ..< i]) = Inr (map (stride shape) [0 ..< d])"
  using assms
proof (induction "d - i" arbitrary: i)
  case 0
  then have "i = d" by simp
  then show ?case by (subst strides_loop.simps) simp
next
  case (Suc k)
  then have lt: "i < d" by simp
  obtain j where j: "i = Suc j" using Suc.prems(1) by (cases i) simp_all
  have r1: "rd (map (stride shape) [0 ..< i]) (i - 1) = Inr (stride shape j)"
    unfolding j by (simp add: rd_def nth_append)
  have r2: "rd shape (i - 1) = Inr (shape ! j)"
    using lt Suc.prems j by simp
  have ext: "map (stride shape) [0 ..< i] @ [stride shape j * shape ! j] =
      map (stride shape) [0 ..< i + 1]"
    by (simp add: j)
  have IH: "strides_loop shape d (i + 1) (map (stride shape) [0 ..< i + 1]) =
      Inr (map (stride shape) [0 ..< d])"
    using Suc.hyps(2) lt Suc.prems by (intro Suc.hyps(1)) simp_all
  show ?case
    using lt by (subst strides_loop.simps) (simp only: r1 r2 ext IH if_True sum.case)
qed

lemma src_offset_loop_eq:
  assumes "i \<le> d" "d \<le> length cur" "d \<le> length shape"
  shows "src_offset_loop cur (map (stride shape) [0 ..< d]) d i
           (\<Sum>j<i. cur ! j * stride shape j) =
         Inr (\<Sum>j<d. cur ! j * stride shape j)"
  using assms
proof (induction "d - i" arbitrary: i)
  case 0
  then have "i = d" by simp
  then show ?case by (subst src_offset_loop.simps) simp
next
  case (Suc k)
  then have lt: "i < d" by simp
  have r1: "rd cur i = Inr (cur ! i)" using lt Suc.prems by simp
  have r2: "rd (map (stride shape) [0 ..< d]) i = Inr (stride shape i)"
    using lt by (simp add: rd_def)
  have IH: "src_offset_loop cur (map (stride shape) [0 ..< d]) d (i + 1)
           (\<Sum>j<i + 1. cur ! j * stride shape j) =
         Inr (\<Sum>j<d. cur ! j * stride shape j)"
    using Suc.hyps(2) lt Suc.prems by (intro Suc.hyps(1)) simp_all
  show ?case
    using lt IH by (subst src_offset_loop.simps) (simp add: r1 r2)
qed

section \<open>The index increment\<close>

lemma list_all_upt: "list_all P [i ..< d] \<longleftrightarrow> (\<forall>j. i \<le> j \<and> j < d \<longrightarrow> P j)"
  by (auto simp: list_all_iff)

lemma rank_cong:
  "(\<And>j. j < n \<Longrightarrow> cur' ! j = cur ! j) \<Longrightarrow> rank ranges cur' n = rank ranges cur n"
  by (induction n) (simp_all add: digit_def)

lemma unat_word_succ: "(c :: size_t) < t \<Longrightarrow> unat (c + 1) = unat c + 1"
proof -
  assume "c < t"
  then have "unat c < unat t" by (simp add: word_less_nat_alt)
  moreover have "unat t < 2 ^ 64" using unsigned_less [of t, where ?'a = nat] by simp
  ultimately have "unat c + unat (1 :: size_t) < 2 ^ 64" by simp
  then show ?thesis using unat_add_lem [of c 1] by simp
qed

lemma next_indices_step:
  assumes r2: "d * 2 \<le> length ranges" and st: "start \<le> 1"
  shows "n \<le> d \<Longrightarrow> in_range ranges d cur \<Longrightarrow> rank ranges cur n + 1 < steps ranges n \<Longrightarrow>
         \<exists>cur'. next_indices ranges start (n - 1) cur = Inr cur' \<and> in_range ranges d cur'
               \<and> rank ranges cur' n = rank ranges cur n + 1
               \<and> (\<forall>j. n \<le> j \<longrightarrow> cur' ! j = cur ! j)"
proof (induction n arbitrary: cur)
  case 0
  then show ?case by simp
next
  case (Suc n)
  show ?case
  proof (cases "n = 0")
    case True
    then have False using Suc.prems(3) by (simp add: digit_def digit_base_def)
    then show ?thesis ..
  next
    case False
    then have n1: "1 \<le> n" by simp
    have nd: "n < d" using Suc.prems(1) by simp
    have lc: "length cur = d" using Suc.prems(2) by (simp add: in_range_def)
    note r = rd_ranges [OF r2 nd]
    have rc: "rd cur n = Inr (cur ! n)" using nd lc by simp
    have ge: "start \<le> n" using st n1 by simp
    have inr: "\<And>j. j < d \<Longrightarrow> (if 1 \<le> j \<and> is_range ranges j
                    then range_from ranges j \<le> cur ! j \<and> cur ! j < range_to ranges j
                    else cur ! j = range_from ranges j)"
      using Suc.prems(2) by (simp add: in_range_def list_all_upt)
    show ?thesis
    proof (cases "is_range ranges n")
      case fixed: False
      have room: "rank ranges cur n + 1 < steps ranges n"
        using Suc.prems(3) fixed by (simp add: digit_def digit_base_def)
      have "\<exists>cur'. next_indices ranges start (n - 1) cur = Inr cur' \<and> in_range ranges d cur'
               \<and> rank ranges cur' n = rank ranges cur n + 1
               \<and> (\<forall>j. n \<le> j \<longrightarrow> cur' ! j = cur ! j)"
        using nd Suc.prems(2) room by (intro Suc.IH) simp_all
      then obtain cur' where c': "next_indices ranges start (n - 1) cur = Inr cur'"
        "in_range ranges d cur'" "rank ranges cur' n = rank ranges cur n + 1"
        "\<forall>j. n \<le> j \<longrightarrow> cur' ! j = cur ! j" by blast
      have "next_indices ranges start (Suc n - 1) cur = Inr cur'"
        using ge fixed False c'(1)
        by (subst next_indices.simps) (simp add: r is_range_def)
      moreover have "rank ranges cur' (Suc n) = rank ranges cur (Suc n) + 1"
        using c'(3) fixed by (simp add: digit_def digit_base_def)
      ultimately show ?thesis using c'(2,4) by auto
    next
      case rng: True
      have bounds: "range_from ranges n \<le> cur ! n" "cur ! n < range_to ranges n"
        using inr [OF nd] n1 rng by simp_all
      have ne: "range_from ranges n \<noteq> range_to ranges n" using rng by (simp add: is_range_def)
      have uf: "unat (range_from ranges n) \<le> unat (cur ! n)"
        and ut: "unat (cur ! n) < unat (range_to ranges n)"
        using bounds by (simp_all add: word_le_nat_alt word_less_nat_alt)
      have succ: "unat (cur ! n + 1) = unat (cur ! n) + 1"
        using bounds(2) by (rule unat_word_succ)
      have base: "digit_base ranges n = unat (range_to ranges n) - unat (range_from ranges n)"
        using n1 rng uf ut by (simp add: digit_base_def unat_sub word_le_nat_alt)
      have dig: "digit ranges cur n = unat (cur ! n) - unat (range_from ranges n)"
        using n1 rng bounds(1) by (simp add: digit_def unat_sub)
      show ?thesis
      proof (cases "cur ! n + 1 < range_to ranges n")
        case True
        define cur' where "cur' = cur[n := cur ! n + 1]"
        have nx: "next_indices ranges start (Suc n - 1) cur = Inr cur'"
          using ge ne True
          by (subst next_indices.simps) (simp add: r rc cur'_def)
        have ir: "in_range ranges d cur'"
          unfolding in_range_def list_all_upt
        proof (intro conjI allI impI)
          show "length cur' = d" using lc by (simp add: cur'_def)
          fix j assume j: "0 \<le> j \<and> j < d"
          show "if 1 \<le> j \<and> is_range ranges j
                then range_from ranges j \<le> cur' ! j \<and> cur' ! j < range_to ranges j
                else cur' ! j = range_from ranges j"
          proof (cases "j = n")
            case True
            have "range_from ranges n \<le> cur ! n + 1"
              using uf succ by (simp add: word_le_nat_alt)
            then show ?thesis
              using True n1 rng nd lc \<open>cur ! n + 1 < range_to ranges n\<close> by (simp add: cur'_def)
          next
            case False
            then show ?thesis using inr [of j] j by (simp add: cur'_def)
          qed
        qed
        have lower: "rank ranges cur' n = rank ranges cur n"
          by (rule rank_cong) (simp add: cur'_def)
        have "digit ranges cur' n = digit ranges cur n + 1"
        proof -
          have "range_from ranges n \<le> cur ! n + 1"
            using uf succ by (simp add: word_le_nat_alt)
          then have "unat (cur ! n + 1 - range_from ranges n) =
              unat (cur ! n + 1) - unat (range_from ranges n)" by (simp add: unat_sub)
          then show ?thesis
            using n1 rng nd lc uf succ dig by (simp add: digit_def cur'_def)
        qed
        then have "rank ranges cur' (Suc n) = rank ranges cur (Suc n) + 1"
          using lower by simp
        moreover have "\<forall>j. Suc n \<le> j \<longrightarrow> cur' ! j = cur ! j" by (simp add: cur'_def)
        ultimately show ?thesis using nx ir by blast
      next
        case wrap: False
        then have "\<not> unat (cur ! n) + 1 < unat (range_to ranges n)"
          using succ by (simp add: word_less_nat_alt)
        then have top: "unat (cur ! n) + 1 = unat (range_to ranges n)" using ut by simp
        then have dtop: "digit ranges cur n + 1 = digit_base ranges n"
          using dig base uf by simp
        define cur2 where "cur2 = cur[n := range_from ranges n]"
        have ir2: "in_range ranges d cur2"
          unfolding in_range_def list_all_upt
        proof (intro conjI allI impI)
          show "length cur2 = d" using lc by (simp add: cur2_def)
          fix j assume j: "0 \<le> j \<and> j < d"
          show "if 1 \<le> j \<and> is_range ranges j
                then range_from ranges j \<le> cur2 ! j \<and> cur2 ! j < range_to ranges j
                else cur2 ! j = range_from ranges j"
          proof (cases "j = n")
            case True
            have "range_from ranges n < range_to ranges n"
              using bounds by simp
            then show ?thesis using True n1 rng nd lc by (simp add: cur2_def)
          next
            case False
            then show ?thesis using inr [of j] j by (simp add: cur2_def)
          qed
        qed
        have lower2: "rank ranges cur2 n = rank ranges cur n"
          by (rule rank_cong) (simp add: cur2_def)
        have "(rank ranges cur n + 1) * digit_base ranges n < steps ranges n * digit_base ranges n"
          using Suc.prems(3) dtop by (simp add: add_mult_distrib)
        then have "rank ranges cur n + 1 < steps ranges n"
          by (simp only: mult_less_cancel2)
        then have room: "rank ranges cur2 n + 1 < steps ranges n"
          using lower2 by simp
        have "\<exists>cur'. next_indices ranges start (n - 1) cur2 = Inr cur' \<and> in_range ranges d cur'
               \<and> rank ranges cur' n = rank ranges cur2 n + 1
               \<and> (\<forall>j. n \<le> j \<longrightarrow> cur' ! j = cur2 ! j)"
          using nd ir2 room by (intro Suc.IH) simp_all
        then obtain cur' where c': "next_indices ranges start (n - 1) cur2 = Inr cur'"
          "in_range ranges d cur'" "rank ranges cur' n = rank ranges cur2 n + 1"
          "\<forall>j. n \<le> j \<longrightarrow> cur' ! j = cur2 ! j" by blast
        have nx: "next_indices ranges start (Suc n - 1) cur = Inr cur'"
          using ge ne wrap False c'(1)
          by (subst next_indices.simps) (simp add: r rc cur2_def)
        have "cur' ! n = range_from ranges n"
          using c'(4) nd lc by (simp add: cur2_def)
        then have "digit ranges cur' n = 0" using n1 rng by (simp add: digit_def)
        then have "rank ranges cur' (Suc n) = rank ranges cur (Suc n) + 1"
          using c'(3) lower2 dtop by (simp add: add_mult_distrib)
        moreover have "\<forall>j. Suc n \<le> j \<longrightarrow> cur' ! j = cur ! j"
          using c'(4) by (simp add: cur2_def)
        ultimately show ?thesis using nx c'(2) by blast
      qed
    qed
  qed
qed

section \<open>Sizes in the general slicer\<close>

text \<open>The length the slicer gives an axis in the result, 1 for a fixed axis.\<close>

lemma is_range_pos: "is_range ranges i \<Longrightarrow> 0 < unat (range_to ranges i - range_from ranges i)"
  by (simp add: is_range_def unat_gt_0)

lemma digit_base_pos: "0 < digit_base ranges i"
  by (simp add: digit_base_def is_range_pos)

lemma steps_pos: "0 < steps ranges n"
  by (induction n) (simp_all add: digit_base_pos)

lemma prod_list_filter_one:
  "prod_list (map f (filter p xs)) = prod_list (map (\<lambda>x. if p x then f x else (1::nat)) xs)"
  by (induction xs) simp_all

lemma prod_list_mono_nat:
  "(\<And>x. x \<in> set xs \<Longrightarrow> f x \<le> (g x :: nat)) \<Longrightarrow> prod_list (map f xs) \<le> prod_list (map g xs)"
  by (induction xs) (simp_all add: mult_le_mono)

lemma sliced_count_upt:
  "prod_list (map unat (sliced_shape ranges d)) =
   prod_list (map (\<lambda>i. if is_range ranges i
                       then unat (range_to ranges i - range_from ranges i) else 1) [0 ..< d])"
  unfolding sliced_shape_def range_axes_def map_map comp_def
  by (rule prod_list_filter_one)

lemma sliced_count_steps:
  "1 \<le> d \<Longrightarrow>
   prod_list (map unat (sliced_shape ranges d)) =
     (if is_range ranges 0 then unat (range_to ranges 0 - range_from ranges 0) else 1) *
     steps ranges d"
proof (induction d)
  case 0
  then show ?case by simp
next
  case (Suc d)
  show ?case
  proof (cases "d = 0")
    case True
    then show ?thesis by (simp add: sliced_count_upt digit_base_def)
  next
    case False
    then have "1 \<le> d" by simp
    then have IH: "prod_list (map unat (sliced_shape ranges d)) =
     (if is_range ranges 0 then unat (range_to ranges 0 - range_from ranges 0) else 1) *
     steps ranges d" by (rule Suc.IH)
    have "prod_list (map unat (sliced_shape ranges (Suc d))) =
        prod_list (map unat (sliced_shape ranges d)) * digit_base ranges d"
      using \<open>1 \<le> d\<close> by (simp add: sliced_count_upt digit_base_def)
    then show ?thesis unfolding IH by simp
  qed
qed

lemma ranges_ok_axis:
  assumes "ranges_ok shape ranges d" "i < d"
  shows "is_range ranges i \<Longrightarrow> unat (range_from ranges i) < unat (range_to ranges i)"
    and "is_range ranges i \<Longrightarrow> unat (range_to ranges i) \<le> unat (shape ! i)"
    and "is_range ranges i \<Longrightarrow>
           unat (range_to ranges i - range_from ranges i) =
           unat (range_to ranges i) - unat (range_from ranges i)"
    and "\<not> is_range ranges i \<Longrightarrow> unat (range_from ranges i) < unat (shape ! i)"
proof -
  have a: "axis_ok shape ranges i" and le: "range_from ranges i \<le> range_to ranges i"
    using assms by (simp_all add: ranges_ok_def list_all_upt)
  show "unat (range_from ranges i) < unat (range_to ranges i)" if "is_range ranges i"
  proof -
    have "range_from ranges i < range_to ranges i"
      using that le by (simp add: is_range_def less_le)
    then show ?thesis by (simp add: word_less_nat_alt)
  qed
  show "unat (range_to ranges i) \<le> unat (shape ! i)" if "is_range ranges i"
    using that a by (simp add: axis_ok_def word_le_nat_alt)
  show "unat (range_to ranges i - range_from ranges i) =
           unat (range_to ranges i) - unat (range_from ranges i)" if "is_range ranges i"
    using le by (simp add: unat_sub)
  show "unat (range_from ranges i) < unat (shape ! i)" if "\<not> is_range ranges i"
    using that a by (simp add: axis_ok_def word_less_nat_alt)
qed

lemma sliced_count_le:
  assumes ok: "ranges_ok shape ranges d" and l: "length shape = d"
  shows "prod_list (map unat (sliced_shape ranges d)) \<le> prod_list (map unat shape)"
proof -
  have "prod_list (map (\<lambda>i. if is_range ranges i
            then unat (range_to ranges i - range_from ranges i) else 1) [0 ..< d])
        \<le> prod_list (map (\<lambda>i. unat (shape ! i)) [0 ..< d])"
  proof (rule prod_list_mono_nat)
    fix i assume "i \<in> set [0 ..< d]"
    then have i: "i < d" by simp
    show "(if is_range ranges i then unat (range_to ranges i - range_from ranges i) else 1)
        \<le> unat (shape ! i)"
      using ranges_ok_axis [OF ok i] by (cases "is_range ranges i") simp_all
  qed
  moreover have "map (\<lambda>i. unat (shape ! i)) [0 ..< d] = map unat shape"
    using l by (intro nth_equalityI) simp_all
  ultimately show ?thesis by (simp add: sliced_count_upt)
qed

lemma chunk_in_source:
  assumes ok: "ranges_ok shape ranges d" and l: "length shape = d" and d1: "1 \<le> d"
    and ir: "in_range ranges d cur"
  shows "(\<Sum>j<d. unat (cur ! j) * prod_list (map unat (take j shape)))
         + (if is_range ranges 0 then unat (range_to ranges 0 - range_from ranges 0) else 1)
         \<le> prod_list (map unat shape)"
proof -
  let ?C = "if is_range ranges 0 then unat (range_to ranges 0 - range_from ranges 0) else 1"
  define c where "c j = (if j = 0 then unat (cur ! 0) + ?C - 1 else unat (cur ! j))" for j
  obtain d' where d': "d = Suc d'" using d1 by (cases d) simp_all
  have C1: "1 \<le> ?C" using is_range_pos [of ranges 0] by (cases "is_range ranges 0") simp_all
  have inr: "\<And>j. j < d \<Longrightarrow> (if 1 \<le> j \<and> is_range ranges j
                    then range_from ranges j \<le> cur ! j \<and> cur ! j < range_to ranges j
                    else cur ! j = range_from ranges j)"
    using ir by (simp add: in_range_def list_all_upt)
  have dig: "c j < map unat shape ! j" if j: "j < d" for j
  proof (cases "j = 0")
    case True
    have c0: "cur ! 0 = range_from ranges 0" using inr [of 0] d1 by simp
    have "unat (range_from ranges 0) + ?C - 1 < unat (shape ! 0)"
      using ranges_ok_axis [OF ok, of 0] d1 by (cases "is_range ranges 0") simp_all
    then show ?thesis using True l d1 by (simp add: c_def c0)
  next
    case False
    then have j1: "1 \<le> j" by simp
    have "unat (cur ! j) < unat (shape ! j)"
    proof (cases "is_range ranges j")
      case True
      then have "cur ! j < range_to ranges j" using inr [OF j] j1 by simp
      then have "unat (cur ! j) < unat (range_to ranges j)" by (simp add: word_less_nat_alt)
      then show ?thesis using ranges_ok_axis(2) [OF ok j True] by simp
    next
      case nr: False
      then have "cur ! j = range_from ranges j" using inr [OF j] by simp
      then show ?thesis using ranges_ok_axis(4) [OF ok j nr] by simp
    qed
    then show ?thesis using False l j by (simp add: c_def)
  qed
  have "(\<Sum>j<d. c j * prod_list (take j (map unat shape))) < prod_list (take d (map unat shape))"
    using l dig by (intro radix_bound) simp_all
  then have lt: "(\<Sum>j<d. c j * prod_list (map unat (take j shape))) < prod_list (map unat shape)"
    using l by (simp add: take_map)
  have "(\<Sum>j<d. c j * prod_list (map unat (take j shape))) =
        c 0 + (\<Sum>j<d'. c (Suc j) * prod_list (map unat (take (Suc j) shape)))"
    unfolding d' by (subst sum.lessThan_Suc_shift) simp
  moreover have "(\<Sum>j<d. unat (cur ! j) * prod_list (map unat (take j shape))) =
        unat (cur ! 0) + (\<Sum>j<d'. unat (cur ! Suc j) * prod_list (map unat (take (Suc j) shape)))"
    unfolding d' by (subst sum.lessThan_Suc_shift) simp
  moreover have "c 0 = unat (cur ! 0) + ?C - 1" by (simp add: c_def)
  moreover have "\<And>j. c (Suc j) = unat (cur ! Suc j)" by (simp add: c_def)
  ultimately have "(\<Sum>j<d. c j * prod_list (map unat (take j shape))) + 1 =
      (\<Sum>j<d. unat (cur ! j) * prod_list (map unat (take j shape))) + ?C"
    using C1 by simp
  then show ?thesis using lt by simp
qed

section \<open>The chunk loop\<close>

lemma length_memcpy:
  "memcpy dest d src s n = Inr dest' \<Longrightarrow> length dest' = length dest"
  by (auto simp: memcpy_def split: if_splits)

lemma chunk_copy:
  fixes src :: arr and element_size c dest_index :: size_t and ranges :: "size_t list"
  defines "d \<equiv> unat (len src)"
  defines "C \<equiv> (if is_range ranges 0 then unat (range_to ranges 0 - range_from ranges 0) else 1)"
  assumes ok: "arr_ok element_size src"
    and good: "ranges_ok (dim_lengths src) ranges d" and d1: "1 \<le> d"
    and ir: "in_range ranges d cur"
    and k: "k < steps ranges d"
    and di: "unat dest_index = k * C"
    and c: "unat c = C"
    and ld: "length dest = prod_list (map unat (sliced_shape ranges d)) * unat element_size"
  shows "\<exists>dest'.
           (case src_offset_loop cur (map (stride (dim_lengths src)) [0 ..< d]) d 0 0 of
              Inl e \<Rightarrow> Inl e
            | Inr src_offset \<Rightarrow>
                memcpy dest (unat (dest_index * element_size)) (data src)
                  (unat (src_offset * element_size)) (unat (c * element_size))) = Inr dest'
           \<and> length dest' = length dest"
proof -
  let ?shape = "dim_lengths src" and ?E = "unat element_size"
  let ?P = "prod_list (map unat ?shape)"
  let ?Q = "prod_list (map unat (sliced_shape ranges d))"
  define sg where "sg = (\<Sum>j<d. unat (cur ! j) * prod_list (map unat (take j ?shape)))"
  have l: "length ?shape = d" and dat: "length (data src) = ?P * ?E"
    and PE: "?P * ?E < 2 ^ 64"
    using ok by (simp_all add: arr_ok_def d_def)
  have lc: "length cur = d" using ir by (simp add: in_range_def)
  have so: "src_offset_loop cur (map (stride ?shape) [0 ..< d]) d 0 0 =
      Inr (\<Sum>j<d. cur ! j * stride ?shape j)"
    using src_offset_loop_eq [of 0 d cur ?shape] l lc by simp
  have sw: "(\<Sum>j<d. cur ! j * stride ?shape j) = (of_nat sg :: size_t)"
    unfolding sg_def using l by (intro flat_of_nat) simp
  have inside: "sg + C \<le> ?P"
    unfolding sg_def C_def using good l d1 ir by (rule chunk_in_source)
  have Q: "?Q = C * steps ranges d"
    unfolding C_def using d1 by (rule sliced_count_steps)
  have QP: "?Q \<le> ?P" using good l by (rule sliced_count_le)
  have "(k + 1) * C \<le> steps ranges d * C" using k by (intro mult_le_mono1) simp
  then have kQ: "k * C + C \<le> ?Q" by (simp add: Q mult.commute)
  have sgE: "sg * ?E + C * ?E \<le> ?P * ?E"
    using mult_le_mono1 [OF inside, of ?E] by (simp add: add_mult_distrib)
  have kE: "k * C * ?E + C * ?E \<le> ?Q * ?E"
    using mult_le_mono1 [OF kQ, of ?E] by (simp add: add_mult_distrib)
  have QE: "?Q * ?E \<le> ?P * ?E" using QP by (rule mult_le_mono1)
  have b1: "sg * ?E < 2 ^ 64" using sgE PE by simp
  have b2: "C * ?E < 2 ^ 64" using sgE PE by simp
  have "k * C * ?E \<le> k * C * ?E + C * ?E" by simp
  also note kE
  also note QE
  also note PE
  finally have b3: "k * C * ?E < 2 ^ 64" .
  have o1: "unat (of_nat sg * element_size) = sg * ?E" using b1 by (rule unat_of_nat_mult)
  have o2: "unat (c * element_size) = C * ?E"
    using b2 unat_mult_small [of c element_size] by (simp add: c)
  have o3: "unat (dest_index * element_size) = k * C * ?E"
    using b3 unat_mult_small [of dest_index element_size] by (simp add: di)
  have s_ok: "sg * ?E + C * ?E \<le> length (data src)" using sgE by (simp only: dat)
  have d_ok: "k * C * ?E + C * ?E \<le> length dest" using kE by (simp only: ld)
  have "memcpy dest (k * C * ?E) (data src) (sg * ?E) (C * ?E) =
      Inr (take (k * C * ?E) dest @ take (C * ?E) (drop (sg * ?E) (data src)) @
           drop (k * C * ?E + C * ?E) dest)"
    using s_ok d_ok by (rule memcpy_ok)
  then show ?thesis
    unfolding so sw using length_memcpy by (simp only: o1 o2 o3 sum.case) blast
qed

lemma copy_chunks_rest:
  fixes src :: arr and element_size c :: size_t and ranges :: "size_t list"
  defines "d \<equiv> unat (len src)"
  defines "C \<equiv> (if is_range ranges 0 then unat (range_to ranges 0 - range_from ranges 0) else 1)"
  assumes ok: "arr_ok element_size src"
    and r2: "length ranges = d * 2"
    and good: "ranges_ok (dim_lengths src) ranges d" and d1: "1 \<le> d"
    and c: "unat c = C"
  shows "1 \<le> k \<Longrightarrow> k \<le> steps ranges d \<Longrightarrow> in_range ranges d cur \<Longrightarrow>
         rank ranges cur d + 1 = k \<Longrightarrow> unat dest_index = k * C \<Longrightarrow>
         length dest = prod_list (map unat (sliced_shape ranges d)) * unat element_size \<Longrightarrow>
         \<exists>dest'. copy_chunks (data src) element_size ranges
                   (map (stride (dim_lengths src)) [0 ..< d]) d (is_range ranges 0) c
                   (steps ranges d) k cur dest_index dest = Inr dest'
                 \<and> length dest' = length dest"
proof (induction "steps ranges d - k" arbitrary: k cur dest_index dest)
  case 0
  then have "k = steps ranges d" by simp
  then show ?case by (subst copy_chunks.simps) simp
next
  case (Suc m)
  let ?Q = "prod_list (map unat (sliced_shape ranges d))"
  have lt: "k < steps ranges d" using Suc.hyps(2) by simp
  have k0: "0 < k" using Suc.prems(1) by simp
  have room: "rank ranges cur d + 1 < steps ranges d" using Suc.prems(4) lt by simp
  have "\<exists>cur'. next_indices ranges (if is_range ranges 0 then 1 else 0) (d - 1) cur = Inr cur'
          \<and> in_range ranges d cur' \<and> rank ranges cur' d = rank ranges cur d + 1
          \<and> (\<forall>j. d \<le> j \<longrightarrow> cur' ! j = cur ! j)"
    using r2 Suc.prems(3) room by (intro next_indices_step) simp_all
  then obtain cur' where nx: "next_indices ranges (if is_range ranges 0 then 1 else 0) (d - 1) cur = Inr cur'"
    and ir': "in_range ranges d cur'" and rk': "rank ranges cur' d = k"
    using Suc.prems(4) by auto
  have "\<exists>dest'.
           (case src_offset_loop cur' (map (stride (dim_lengths src)) [0 ..< d]) d 0 0 of
              Inl e \<Rightarrow> Inl e
            | Inr src_offset \<Rightarrow>
                memcpy dest (unat (dest_index * element_size)) (data src)
                  (unat (src_offset * element_size)) (unat (c * element_size))) = Inr dest'
           \<and> length dest' = length dest"
    using ok good d1 ir' lt Suc.prems(5) c Suc.prems(6)
    unfolding d_def C_def by (rule chunk_copy)
  then obtain dest1 where
    cp: "(case src_offset_loop cur' (map (stride (dim_lengths src)) [0 ..< d]) d 0 0 of
              Inl e \<Rightarrow> Inl e
            | Inr src_offset \<Rightarrow>
                memcpy dest (unat (dest_index * element_size)) (data src)
                  (unat (src_offset * element_size)) (unat (c * element_size))) = Inr dest1"
    and l1: "length dest1 = length dest" by blast
  have Q: "?Q = C * steps ranges d"
    unfolding C_def using d1 by (rule sliced_count_steps)
  have QP: "?Q \<le> prod_list (map unat (dim_lengths src))"
    using good ok by (intro sliced_count_le) (simp_all add: arr_ok_def d_def)
  have P64: "prod_list (map unat (dim_lengths src)) < 2 ^ 64" using ok by (simp add: arr_ok_def)
  have "(k + 1) * C \<le> steps ranges d * C" using lt by (intro mult_le_mono1) simp
  then have "k * C + C \<le> ?Q" by (simp add: Q mult.commute)
  then have "unat dest_index + unat c < 2 ^ 64"
    using QP P64 by (simp add: Suc.prems(5) c)
  then have di': "unat (dest_index + c) = (k + 1) * C"
    using unat_add_lem [of dest_index c] by (simp add: Suc.prems(5) c)
  have step: "copy_chunks (data src) element_size ranges
                   (map (stride (dim_lengths src)) [0 ..< d]) d (is_range ranges 0) c
                   (steps ranges d) k cur dest_index dest =
      copy_chunks (data src) element_size ranges
                   (map (stride (dim_lengths src)) [0 ..< d]) d (is_range ranges 0) c
                   (steps ranges d) (k + 1) cur' (dest_index + c) dest1"
  proof -
    have d0: "d \<noteq> 0" using d1 by simp
    show ?thesis
      apply (subst copy_chunks.simps)
      apply (simp only: lt k0 d0 if_True if_False nx sum.case)
      apply (cases "src_offset_loop cur' (map (stride (dim_lengths src)) [0 ..< d]) d 0 0")
      using cp apply simp_all
      done
  qed
  have "\<exists>dest'. copy_chunks (data src) element_size ranges
                   (map (stride (dim_lengths src)) [0 ..< d]) d (is_range ranges 0) c
                   (steps ranges d) (k + 1) cur' (dest_index + c) dest1 = Inr dest'
                 \<and> length dest' = length dest1"
    using Suc.hyps(2) lt ir' rk' di' l1 Suc.prems(6)
    by (intro Suc.hyps(1)) simp_all
  then show ?case unfolding step using l1 by simp
qed

section \<open>The general slicer on valid ranges\<close>

lemma rank_start: "rank ranges (map (range_from ranges) [0 ..< d]) n = 0" if "n \<le> d"
  using that by (induction n) (simp_all add: digit_def)

lemma in_range_start:
  assumes "ranges_ok shape ranges d"
  shows "in_range ranges d (map (range_from ranges) [0 ..< d])"
  unfolding in_range_def list_all_upt
proof (intro conjI allI impI)
  show "length (map (range_from ranges) [0 ..< d]) = d" by simp
  fix j assume j: "0 \<le> j \<and> j < d"
  then have jd: "j < d" by simp
  have "range_from ranges j < range_to ranges j" if "is_range ranges j"
    using ranges_ok_axis(1) [OF assms jd that] by (simp add: word_less_nat_alt)
  then show "if 1 \<le> j \<and> is_range ranges j
        then range_from ranges j \<le> map (range_from ranges) [0 ..< d] ! j \<and>
             map (range_from ranges) [0 ..< d] ! j < range_to ranges j
        else map (range_from ranges) [0 ..< d] ! j = range_from ranges j"
    using jd by simp
qed

lemma copy_chunks_all:
  fixes src :: arr and element_size c :: size_t and ranges :: "size_t list"
  defines "d \<equiv> unat (len src)"
  defines "C \<equiv> (if is_range ranges 0 then unat (range_to ranges 0 - range_from ranges 0) else 1)"
  assumes ok: "arr_ok element_size src"
    and r2: "length ranges = d * 2"
    and good: "ranges_ok (dim_lengths src) ranges d" and d1: "1 \<le> d"
    and c: "unat c = C"
    and ld: "length dest = prod_list (map unat (sliced_shape ranges d)) * unat element_size"
  shows "\<exists>dest'. copy_chunks (data src) element_size ranges
                   (map (stride (dim_lengths src)) [0 ..< d]) d (is_range ranges 0) c
                   (steps ranges d) 0 (map (range_from ranges) [0 ..< d]) 0 dest = Inr dest'
                 \<and> length dest' = length dest"
proof -
  let ?cur = "map (range_from ranges) [0 ..< d]"
  have ir: "in_range ranges d ?cur" using good by (rule in_range_start)
  have sp: "0 < steps ranges d" by (rule steps_pos)
  have z: "unat (0 :: size_t) = 0 * C" by simp
  have "\<exists>dest'.
           (case src_offset_loop ?cur (map (stride (dim_lengths src)) [0 ..< d]) d 0 0 of
              Inl e \<Rightarrow> Inl e
            | Inr src_offset \<Rightarrow>
                memcpy dest (unat (0 * element_size)) (data src)
                  (unat (src_offset * element_size)) (unat (c * element_size))) = Inr dest'
           \<and> length dest' = length dest"
    using ok good d1 ir sp z c ld unfolding d_def C_def by (rule chunk_copy)
  then obtain dest1 where
    cp: "(case src_offset_loop ?cur (map (stride (dim_lengths src)) [0 ..< d]) d 0 0 of
              Inl e \<Rightarrow> Inl e
            | Inr src_offset \<Rightarrow>
                memcpy dest (unat (0 * element_size)) (data src)
                  (unat (src_offset * element_size)) (unat (c * element_size))) = Inr dest1"
    and l1: "length dest1 = length dest" by blast
  have step: "copy_chunks (data src) element_size ranges
                   (map (stride (dim_lengths src)) [0 ..< d]) d (is_range ranges 0) c
                   (steps ranges d) 0 ?cur 0 dest =
      copy_chunks (data src) element_size ranges
                   (map (stride (dim_lengths src)) [0 ..< d]) d (is_range ranges 0) c
                   (steps ranges d) 1 ?cur c dest1"
    apply (subst copy_chunks.simps)
    apply (simp only: sp if_True less_irrefl if_False sum.case)
    apply (cases "src_offset_loop ?cur (map (stride (dim_lengths src)) [0 ..< d]) d 0 0")
    using cp apply simp_all
    done
  have "\<exists>dest'. copy_chunks (data src) element_size ranges
                   (map (stride (dim_lengths src)) [0 ..< d]) d (is_range ranges 0) c
                   (steps ranges d) 1 ?cur c dest1 = Inr dest'
                 \<and> length dest' = length dest1"
  proof (rule copy_chunks_rest [of element_size src ranges c 1 ?cur c dest1, folded d_def C_def])
    show "arr_ok element_size src" by (rule ok)
    show "length ranges = d * 2" by (rule r2)
    show "ranges_ok (dim_lengths src) ranges d" by (rule good)
    show "1 \<le> d" by (rule d1)
    show "unat c = C" by (rule c)
    show "(1::nat) \<le> 1" by simp
    show "1 \<le> steps ranges d" using sp by simp
    show "in_range ranges d ?cur" by (rule ir)
    show "rank ranges ?cur d + 1 = 1" by (simp add: rank_start)
    show "unat c = 1 * C" using c by simp
    show "length dest1 = prod_list (map unat (sliced_shape ranges d)) * unat element_size"
      using l1 ld by simp
  qed
  then show ?thesis unfolding step using l1 by simp
qed

lemma slice_1d_plain:
  assumes ok: "arr_ok element_size src" and one: "len src = 1"
    and lt: "from < to" and le: "to \<le> dim_lengths src ! 0"
  shows "fclib_arr_get_slice_1d src element_size from to fresh =
           Inr \<lparr>len = 1, dim_lengths = [to - from],
                data = take (unat (to - from) * unat element_size)
                         (drop (unat from * unat element_size) (data src))\<rparr>"
proof -
  have dl: "length (dim_lengths src) = 1" using ok one by (simp add: arr_ok_def)
  have r: "rd (dim_lengths src) 0 = Inr (dim_lengths src ! 0)" using dl by simp
  have t0: "to \<noteq> 0" using lt by (metis not_less word_le_0_iff word_less_def less_le)
  have c1: "\<not> dim_lengths src ! 0 < to" using le by simp
  have c2: "from \<noteq> to" and c3: "\<not> to < from" using lt by simp_all
  have "fclib_arr_get_slice_1d src element_size from to fresh =
      (case fclib_arr_create 1 element_size [to - from] fresh of
            Inl e \<Rightarrow> Inl e
          | Inr sl \<Rightarrow>
              (case memcpy (data sl) 0 (data src) (unat (from * element_size))
                      (unat ((to - from) * element_size)) of
                 Inl e \<Rightarrow> Inl e
               | Inr dest \<Rightarrow> Inr (sl\<lparr>data := dest\<rparr>)))"
    unfolding fclib_arr_get_slice_1d_def r value_after_first_word_1d [OF dl]
    using t0 c1 c2 c3 by (simp add: Let_def)
  also have "\<dots> = Inr \<lparr>len = 1, dim_lengths = [to - from],
                data = take (unat (to - from) * unat element_size)
                         (drop (unat from * unat element_size) (data src))\<rparr>"
    using ok one lt le by (rule slice_1d_copy)
  finally show ?thesis .
qed

lemma unat_of_nat_small: "n < 2 ^ 64 \<Longrightarrow> unat (of_nat n :: size_t) = n"
  by (simp add: unat_of_nat)

lemma slice_general_path:
  fixes src :: arr and element_size :: size_t and ranges :: "size_t list"
  defines "d \<equiv> unat (len src)"
  assumes ok: "arr_ok element_size src"
    and r2: "length ranges = d * 2"
    and good: "ranges_ok (dim_lengths src) ranges d"
    and some: "range_axes ranges d \<noteq> []"
  shows "\<exists>r. fclib_arr_get_slice src element_size ranges fresh = Inr (Some r)
           \<and> len r = of_nat (length (range_axes ranges d))
           \<and> dim_lengths r = sliced_shape ranges d
           \<and> arr_ok element_size r"
proof -
  let ?shape = "dim_lengths src" and ?E = "unat element_size"
  let ?P = "prod_list (map unat ?shape)"
  let ?Q = "prod_list (map unat (sliced_shape ranges d))"
  let ?C = "if is_range ranges 0 then unat (range_to ranges 0 - range_from ranges 0) else 1"
  define nn where "nn = length (range_axes ranges d)"
  define nd :: size_t where "nd = of_nat nn"
  have l: "length ?shape = d" and dat: "length (data src) = ?P * ?E"
    and P64: "?P < 2 ^ 64" and sz: "8 + d * 8 + ?P * ?E < 2 ^ 64"
    using ok by (simp_all add: arr_ok_def d_def)
  have nn_le: "nn \<le> d" unfolding nn_def range_axes_def
    using length_filter_le [of "is_range ranges" "[0 ..< d]"] by simp
  have nn1: "1 \<le> nn" using some by (simp add: nn_def Suc_leI)
  have d1: "1 \<le> d" using nn1 nn_le by simp
  have d64: "d < 2 ^ 64" using sz by simp
  have und: "unat nd = nn" unfolding nd_def using nn_le d64 by (intro unat_of_nat_small) simp
  have nd0: "0 < nd" using und nn1 by (simp add: word_less_nat_alt)
  have axes: "list_all (axis_ok ?shape ranges) [0 ..< d]"
    using good by (simp add: ranges_ok_def list_all_iff)
  have v: "validate_ranges ?shape ranges d 0 0 = Inr (Some nd)"
    using validate_ranges_eq [of 0 d ?shape ranges 0] l r2 axes
    by (simp add: nd_def nn_def range_axes_def)
  have r0: "rd ranges 0 = Inr (range_from ranges 0)" and r1: "rd ranges 1 = Inr (range_to ranges 0)"
    using rd_ranges [of d ranges 0] r2 d1 by simp_all
  have r1': "rd ranges (Suc 0) = Inr (range_to ranges 0)" using r1 by simp
  have QP: "?Q \<le> ?P" using good l by (rule sliced_count_le)
  have Q: "?Q = ?C * steps ranges d" using d1 by (rule sliced_count_steps)
  have C0: "0 < ?C" using is_range_pos [of ranges 0] by (cases "is_range ranges 0") simp_all
  have lsh: "length (sliced_shape ranges d) = nn" by (simp add: sliced_shape_def nn_def)
  have QE: "?Q * ?E \<le> ?P * ?E" using QP by (rule mult_le_mono1)
  have szr: "8 + unat nd * 8 + ?Q * ?E < 2 ^ 64"
  proof -
    have "nn * 8 \<le> d * 8" using nn_le by simp
    then have "8 + nn * 8 + ?Q * ?E \<le> 8 + d * 8 + ?P * ?E"
      using QE by linarith
    also note sz
    finally show ?thesis by (simp only: und)
  qed
  show ?thesis
  proof (cases "len src = 1 \<and> nd = 1")
    case True
    then have dd: "d = 1" by (simp add: d_def)
    have "nn = 1" using True und by (metis unat_1)
    then have isr: "is_range ranges 0"
      unfolding nn_def range_axes_def dd by (simp split: if_splits)
    have ne: "range_from ranges 0 \<noteq> range_to ranges 0" using isr by (simp add: is_range_def)
    have lt: "range_from ranges 0 < range_to ranges 0"
      using ranges_ok_axis(1) [OF good, of 0] isr dd by (simp add: word_less_nat_alt)
    have le: "range_to ranges 0 \<le> ?shape ! 0"
      using ranges_ok_axis(2) [OF good, of 0] isr dd by (simp add: word_le_nat_alt)
    have s1: "fclib_arr_get_slice_1d src element_size (range_from ranges 0) (range_to ranges 0) fresh =
           Inr \<lparr>len = 1, dim_lengths = [range_to ranges 0 - range_from ranges 0],
                data = take (unat (range_to ranges 0 - range_from ranges 0) * ?E)
                         (drop (unat (range_from ranges 0) * ?E) (data src))\<rparr>"
      using ok True lt le by (intro slice_1d_plain) simp_all
    have sh: "sliced_shape ranges d = [range_to ranges 0 - range_from ranges 0]"
      using isr by (simp add: sliced_shape_def range_axes_def dd)
    have "fclib_arr_get_slice src element_size ranges fresh =
        Inr (Some \<lparr>len = 1, dim_lengths = [range_to ranges 0 - range_from ranges 0],
                data = take (unat (range_to ranges 0 - range_from ranges 0) * ?E)
                         (drop (unat (range_from ranges 0) * ?E) (data src))\<rparr>)"
    proof -
      have c: "(len src = 1 \<and> nd = 1) \<longleftrightarrow> True" using True by simp
      show ?thesis
        unfolding fclib_arr_get_slice_def d_def [symmetric] Let_def v
        using nd0 ne by (simp add: r0 r1' c s1)
    qed
    moreover have "arr_ok element_size \<lparr>len = 1, dim_lengths = [range_to ranges 0 - range_from ranges 0],
                data = take (unat (range_to ranges 0 - range_from ranges 0) * ?E)
                         (drop (unat (range_from ranges 0) * ?E) (data src))\<rparr>"
    proof -
      have f: "unat (range_from ranges 0) < unat (range_to ranges 0)"
        using lt by (simp add: word_less_nat_alt)
      have t: "unat (range_to ranges 0) \<le> unat (?shape ! 0)"
        using le by (simp add: word_le_nat_alt)
      have n: "unat (range_to ranges 0 - range_from ranges 0) =
          unat (range_to ranges 0) - unat (range_from ranges 0)" using lt by (simp add: unat_sub)
      have shp: "?shape = [?shape ! 0]" using l dd by (cases ?shape) simp_all
      have P: "?P = unat (?shape ! 0)" by (subst shp) simp
      have "unat (range_from ranges 0) * ?E + unat (range_to ranges 0 - range_from ranges 0) * ?E
          = unat (range_to ranges 0) * ?E"
        using n f by (simp add: add_mult_distrib [symmetric])
      also have "\<dots> \<le> ?P * ?E" using t P by (intro mult_le_mono1) simp
      finally have inside: "unat (range_from ranges 0) * ?E +
          unat (range_to ranges 0 - range_from ranges 0) * ?E \<le> length (data src)"
        using dat by simp
      have "?Q = unat (range_to ranges 0 - range_from ranges 0)" by (simp add: sh)
      then show ?thesis
        using inside szr und \<open>nn = 1\<close> QP P64 by (simp add: arr_ok_def)
    qed
    moreover have "of_nat (length (range_axes ranges d)) = (1 :: size_t)"
      using True by (simp add: nd_def nn_def)
    ultimately show ?thesis using sh by simp
  next
    case False
    have nl: "new_lengths_loop ranges d 0 [] = Inr (sliced_shape ranges d)"
      using new_lengths_loop_eq [of 0 d ranges "[]"] r2
      by (simp add: sliced_shape_def range_axes_def)
    have cr: "fclib_arr_create nd element_size (sliced_shape ranges d) fresh =
        Inr \<lparr>len = nd, dim_lengths = sliced_shape ranges d, data = map fresh [0 ..< ?Q * ?E]\<rparr>"
      using lsh und szr by (intro fclib_arr_create_ok) simp_all
    have st: "strides_loop ?shape d 1 [1] = Inr (map (stride ?shape) [0 ..< d])"
      using strides_loop_eq [of 1 d ?shape] d1 l by simp
    have mlen: "mul_lengths (sliced_shape ranges d) (unat nd) 0 1 = Inr (prod_list (sliced_shape ranges d))"
      using mul_lengths_prod [of 0 "unat nd" "sliced_shape ranges d" 1] lsh und by simp
    have ii: "init_indices_loop ranges d 0 [] = Inr (map (range_from ranges) [0 ..< d])"
      using init_indices_loop_eq [of 0 d ranges "[]"] r2 by simp
    define c :: size_t where
      "c = (if range_from ranges 0 \<noteq> range_to ranges 0 then range_to ranges 0 - range_from ranges 0 else 1)"
    have uc: "unat c = ?C" by (simp add: c_def is_range_def)
    have ut: "unat (prod_list (sliced_shape ranges d)) = ?Q"
    proof -
      have "?Q < 2 ^ 64" using QP P64 by simp
      then show ?thesis
        by (subst prod_list_of_nat) (rule unat_of_nat_small)
    qed
    have md: "prod_list (sliced_shape ranges d) mod c = 0"
    proof -
      have "unat (prod_list (sliced_shape ranges d) mod c) = ?Q mod ?C"
        by (simp only: unat_mod ut uc)
      also have "\<dots> = 0" by (simp only: Q mod_mult_self1_is_0)
      finally show ?thesis by (simp add: unat_eq_0)
    qed
    have dv: "unat (prod_list (sliced_shape ranges d) div c) = steps ranges d"
    proof -
      have "unat (prod_list (sliced_shape ranges d) div c) = ?Q div ?C"
        by (simp only: unat_div ut uc)
      also have "\<dots> = steps ranges d" using C0 by (simp only: Q) simp
      finally show ?thesis .
    qed
    have "\<exists>dest'. copy_chunks (data src) element_size ranges
                   (map (stride ?shape) [0 ..< d]) d (is_range ranges 0) c
                   (steps ranges d) 0 (map (range_from ranges) [0 ..< d]) 0
                   (map fresh [0 ..< ?Q * ?E]) = Inr dest'
                 \<and> length dest' = length (map fresh [0 ..< ?Q * ?E])"
      using ok r2 good d1 uc unfolding d_def by (intro copy_chunks_all) simp_all
    then obtain dest' where
      cc: "copy_chunks (data src) element_size ranges
                   (map (stride ?shape) [0 ..< d]) d (is_range ranges 0) c
                   (steps ranges d) 0 (map (range_from ranges) [0 ..< d]) 0
                   (map fresh [0 ..< ?Q * ?E]) = Inr dest'"
      and ld': "length dest' = ?Q * ?E" by auto
    have "fclib_arr_get_slice src element_size ranges fresh =
        Inr (Some \<lparr>len = nd, dim_lengths = sliced_shape ranges d, data = dest'\<rparr>)"
    proof -
      have c: "(len src = 1 \<and> nd = 1) \<longleftrightarrow> False" using False by simp
      have st': "strides_loop ?shape d (Suc 0) [1] = Inr (map (stride ?shape) [0 ..< d])"
        using st by simp
      show ?thesis
      proof (cases "range_from ranges 0 \<noteq> range_to ranges 0")
        case True
        then have ce: "c = range_to ranges 0 - range_from ranges 0"
          and i0: "is_range ranges 0 \<longleftrightarrow> True" by (simp_all add: c_def is_range_def)
        show ?thesis
          unfolding fclib_arr_get_slice_def d_def [symmetric] Let_def v
          using nd0 True md [unfolded ce] cc [unfolded ce i0]
          by (simp add: r0 r1' c nl cr st' mlen ii dv [unfolded ce])
      next
        case False
        then have ce: "c = 1"
          and i0: "is_range ranges 0 \<longleftrightarrow> False" by (simp_all add: c_def is_range_def)
        show ?thesis
          unfolding fclib_arr_get_slice_def d_def [symmetric] Let_def v
          using nd0 False md [unfolded ce] cc [unfolded ce i0] dv [unfolded ce]
          by (simp add: r0 r1' c nl cr st' mlen ii)
      qed
    qed
    moreover have "arr_ok element_size \<lparr>len = nd, dim_lengths = sliced_shape ranges d, data = dest'\<rparr>"
      using lsh und ld' szr QP P64 by (simp add: arr_ok_def)
    ultimately show ?thesis by (simp add: nd_def nn_def)
  qed
qed

lemma slice_not_null_after_validation:
  "validate_ranges (dim_lengths src) ranges (unat (len src)) 0 0 = Inr (Some nd) \<Longrightarrow>
   fclib_arr_get_slice src element_size ranges fresh \<noteq> Inr None"
  by (auto simp: fclib_arr_get_slice_def Let_def split: sum.splits option.splits if_splits)

text \<open>
  Every axis satisfies its rule and yet no array is produced: an all-fixed selection
  fails the assertion \<^verbatim>\<open>new_dimensionality > 0\<close>, and on a one-dimensional source of
  length 10 the reversed pair \<open>(10, 0)\<close> passes the validation (\<open>0 - 10\<close> wraps) and reaches
  the \<^verbatim>\<open>abort()\<close> of the one-dimensional slicer.
\<close>

theorem slice_rules_met_no_array:
  "list_all (axis_ok [4, 4] [1, 1, 2, 2]) [0 ..< 2]
   \<and> fclib_arr_get_slice
     \<lparr>len = 2, dim_lengths = [4, 4], data = [0, 1, 2, 3, 4, 5, 6, 7, 8, 9, 10, 11, 12, 13, 14, 15]\<rparr>
     1 [1, 1, 2, 2] (\<lambda>_. 0) = Inl AssertionFailed
   \<and> list_all (axis_ok [10] [10, 0]) [0 ..< 1]
   \<and> fclib_arr_get_slice \<lparr>len = 1, dim_lengths = [10], data = [0, 1, 2, 3, 4, 5, 6, 7, 8, 9]\<rparr>
     1 [10, 0] (\<lambda>_. 0) = Inl Aborted"
  by code_simp

text \<open>
  Claim C6, as amended. On a source that satisfies the array invariant, with one pair per
  axis, \<^verbatim>\<open>fclib_arr_get_slice\<close> reports failure (returns \<^verbatim>\<open>NULL\<close>; the source is only
  read) exactly when some axis violates its rule: a fixed axis with \<open>from_i \<ge> shape[i]\<close>, or
  a range axis with \<open>to_i > shape[i]\<close> or \<open>to_i - from_i < 2\<close>. The difference is the one the
  code forms, modulo \<open>2 ^ 64\<close>; for a pair with \<open>from_i \<le> to_i\<close> it is the difference of
  the numbers. When every axis satisfies its rule, no range is reversed and at least one
  axis is a range, the call produces an array: its dimensionality is the number of range
  axes, its shape their lengths in axis order, and it satisfies the array invariant. When
  every axis satisfies its rule and none is a range, the assertion
  \<^verbatim>\<open>new_dimensionality > 0\<close> fails.
\<close>

theorem slice_validation:
  assumes ok: "arr_ok element_size src" and r2: "length ranges = unat (len src) * 2"
  shows "(fclib_arr_get_slice src element_size ranges fresh = Inr None \<longleftrightarrow>
            \<not> list_all (axis_ok (dim_lengths src) ranges) [0 ..< unat (len src)])
       \<and> (if ranges_ok (dim_lengths src) ranges (unat (len src)) \<and>
             range_axes ranges (unat (len src)) \<noteq> []
          then \<exists>r. fclib_arr_get_slice src element_size ranges fresh = Inr (Some r)
                 \<and> len r = of_nat (length (range_axes ranges (unat (len src))))
                 \<and> dim_lengths r = sliced_shape ranges (unat (len src))
                 \<and> arr_ok element_size r
          else True)
       \<and> (if list_all (axis_ok (dim_lengths src) ranges) [0 ..< unat (len src)] \<and>
             range_axes ranges (unat (len src)) = []
          then fclib_arr_get_slice src element_size ranges fresh = Inl AssertionFailed
          else True)"
proof -
  let ?d = "unat (len src)" and ?shape = "dim_lengths src"
  have l: "length ?shape = ?d" using ok by (simp add: arr_ok_def)
  have v: "validate_ranges ?shape ranges ?d 0 0 =
           (if list_all (axis_ok ?shape ranges) [0 ..< ?d]
            then Inr (Some (of_nat (length (range_axes ranges ?d))))
            else Inr None)"
    using validate_ranges_eq [of 0 ?d ?shape ranges 0] l r2 by (simp add: range_axes_def)
  have 1: "fclib_arr_get_slice src element_size ranges fresh = Inr None \<longleftrightarrow>
            \<not> list_all (axis_ok ?shape ranges) [0 ..< ?d]"
  proof (cases "list_all (axis_ok ?shape ranges) [0 ..< ?d]")
    case True
    then show ?thesis using v slice_not_null_after_validation [of src ranges _ element_size fresh]
      by simp
  next
    case False
    then show ?thesis using v by (simp add: fclib_arr_get_slice_def)
  qed
  have 2: "\<exists>r. fclib_arr_get_slice src element_size ranges fresh = Inr (Some r)
                 \<and> len r = of_nat (length (range_axes ranges ?d))
                 \<and> dim_lengths r = sliced_shape ranges ?d
                 \<and> arr_ok element_size r"
    if "ranges_ok ?shape ranges ?d" "range_axes ranges ?d \<noteq> []"
    using ok r2 that by (rule slice_general_path)
  have 3: "fclib_arr_get_slice src element_size ranges fresh = Inl AssertionFailed"
    if "list_all (axis_ok ?shape ranges) [0 ..< ?d]" "range_axes ranges ?d = []"
    using that v by (simp add: fclib_arr_get_slice_def)
  show ?thesis using 1 2 3 by simp
qed

theorem slice_validation_witness:
  "fclib_arr_get_slice
     \<lparr>len = 2, dim_lengths = [4, 4], data = [0, 1, 2, 3, 4, 5, 6, 7, 8, 9, 10, 11, 12, 13, 14, 15]\<rparr>
     1 [0, 4, 1, 5] (\<lambda>_. 0) = Inr None
   \<and> (\<exists>r. fclib_arr_get_slice
     \<lparr>len = 2, dim_lengths = [4, 4], data = [0, 1, 2, 3, 4, 5, 6, 7, 8, 9, 10, 11, 12, 13, 14, 15]\<rparr>
     1 [1, 3, 1, 3] (\<lambda>_. 0) = Inr (Some r) \<and> len r = 2 \<and> dim_lengths r = [2, 2])
   \<and> fclib_arr_get_slice
     \<lparr>len = 2, dim_lengths = [4, 4], data = [0, 1, 2, 3, 4, 5, 6, 7, 8, 9, 10, 11, 12, 13, 14, 15]\<rparr>
     1 [1, 1, 2, 2] (\<lambda>_. 0) = Inl AssertionFailed"
proof -
  let ?a = "\<lparr>len = 2, dim_lengths = [4, 4],
             data = [0, 1, 2, 3, 4, 5, 6, 7, 8, 9, 10, 11, 12, 13, 14, 15]\<rparr> :: arr"
  have ok: "arr_ok 1 ?a" by (simp add: arr_ok_def)
  have l1: "length [0, 4, 1, 5 :: size_t] = unat (len ?a) * 2" by simp
  have l2: "length [1, 3, 1, 3 :: size_t] = unat (len ?a) * 2" by simp
  have l3: "length [1, 1, 2, 2 :: size_t] = unat (len ?a) * 2" by simp
  have u: "unat (len ?a) = 2" by simp
  have b1: "\<not> list_all (axis_ok (dim_lengths ?a) [0, 4, 1, 5]) [0 ..< 2]" by code_simp
  have g2: "ranges_ok (dim_lengths ?a) [1, 3, 1, 3] 2" by code_simp
  have n2: "range_axes [1, 3, 1, 3] 2 = [0, 1]" by code_simp
  have s2: "sliced_shape [1, 3, 1, 3] 2 = [2, 2]" by code_simp
  have a3: "list_all (axis_ok (dim_lengths ?a) [1, 1, 2, 2]) [0 ..< 2]" by code_simp
  have n3: "range_axes [1, 1, 2, 2] 2 = []" by code_simp
  have t1: "fclib_arr_get_slice ?a 1 [0, 4, 1, 5] (\<lambda>_. 0) = Inr None"
    using slice_validation [OF ok l1, of "\<lambda>_. 0"] b1 unfolding u by simp
  have t2: "\<exists>r. fclib_arr_get_slice ?a 1 [1, 3, 1, 3] (\<lambda>_. 0) = Inr (Some r)
      \<and> len r = 2 \<and> dim_lengths r = [2, 2]"
    using slice_validation [OF ok l2, of "\<lambda>_. 0"] g2 n2 s2 unfolding u by auto
  have t3: "fclib_arr_get_slice ?a 1 [1, 1, 2, 2] (\<lambda>_. 0) = Inl AssertionFailed"
    using slice_validation [OF ok l3, of "\<lambda>_. 0"] a3 n3 unfolding u by simp
  from t1 t2 t3 show ?thesis by (intro conjI)
qed

section \<open>The result of a fill\<close>

text \<open>
  What the fills leave: on a block that satisfies the array invariant and has at least one
  element, every slot holds the first \<^verbatim>\<open>element_size\<close> bytes of the seed.
\<close>

lemma fill_seq_every_slot:
  assumes ok: "arr_ok element_size a" and val: "unat element_size \<le> length val"
    and some: "0 < prod_list (map unat (dim_lengths a))"
  shows "fclib_arr_fill_seq a element_size val =
           Inr (a\<lparr>data := rep (prod_list (map unat (dim_lengths a))) (take (unat element_size) val)\<rparr>)"
proof -
  let ?E = "unat element_size" and ?P = "prod_list (map unat (dim_lengths a))"
  have l: "length (dim_lengths a) = unat (len a)" and P64: "?P < 2 ^ 64"
    and dat: "length (data a) = ?P * ?E"
    using ok by (simp_all add: arr_ok_def)
  have t: "total_elements a = Inr (prod_list (dim_lengths a))"
    unfolding total_elements_def using mul_lengths_prod [of 0 "unat (len a)" "dim_lengths a" 1] l
    by simp
  have ut: "unat (prod_list (dim_lengths a)) = ?P"
    using P64 by (subst prod_list_of_nat) (rule unat_of_nat_small)
  have EP: "?E \<le> ?P * ?E" using some by simp
  define d1 where "d1 = take ?E val @ drop ?E (data a)"
  have m: "memcpy (data a) 0 val 0 ?E = Inr d1"
    using val EP dat by (simp add: memcpy_def d1_def)
  have l1: "length d1 = ?P * ?E" using val EP dat by (simp add: d1_def)
  have s1: "take ?E d1 = take ?E val" using val by (simp add: d1_def)
  have "?P * ?E < 2 ^ 64" using ok by (simp add: arr_ok_def)
  then have "fill_seq_loop d1 element_size (unat (prod_list (dim_lengths a))) 1 =
      (if max 1 ?P * ?E \<le> length d1
       then Inr (rep (max 1 ?P) (take ?E d1) @ drop (max 1 ?P * ?E) d1)
       else Inl OutOfBounds)"
    unfolding ut [symmetric] using l1 EP by (intro fill_seq_loop_from_1) (simp_all add: ut)
  moreover have "max 1 ?P = ?P" using some by simp
  ultimately have "fill_seq_loop d1 element_size (unat (prod_list (dim_lengths a))) 1 =
      Inr (rep ?P (take ?E val))"
    using l1 s1 by simp
  then show ?thesis by (simp add: fclib_arr_fill_seq_def t m)
qed

end
